theory Spec2Isabelle
  imports Main
begin

section \<open>Permutations in cycle notation and the groups they generate\<close>

text \<open>
  A shallow embedding of \<^verbatim>\<open>permutations.py\<close>: the class \<^verbatim>\<open>Perm\<close> and the functions
  \<^verbatim>\<open>generate_group\<close> and \<^verbatim>\<open>sgn\<close>.

  Python integers are \<open>int\<close>, strings are \<open>string\<close>. A computation of the source either
  returns a value, raises an exception or runs forever: its model has the type
  \<open>(error + 'a) option\<close>, where \<open>None\<close> is a loop that never ends, \<open>Some (Inl e)\<close> the
  exception \<open>e\<close> and \<open>Some (Inr v)\<close> the returned value \<open>v\<close>. The interpreter's recursion
  limit and memory are not modelled. Characters are the ASCII ones; on these
  \<^verbatim>\<open>int(c)\<close> succeeds, \<^verbatim>\<open>c.isnumeric()\<close> holds and \<^verbatim>\<open>\d\<close> matches exactly for the
  ten decimal digits.
\<close>

subsection \<open>Exceptions and results\<close>

datatype error = ValueError | TypeError | IndexError

definition bindE :: "error + 'a \<Rightarrow> ('a \<Rightarrow> error + 'b) \<Rightarrow> error + 'b" where
  "bindE m f = (case m of Inl e \<Rightarrow> Inl e | Inr x \<Rightarrow> f x)"

definition bindR :: "(error + 'a) option \<Rightarrow> ('a \<Rightarrow> (error + 'b) option) \<Rightarrow> (error + 'b) option" where
  "bindR m f = (case m of None \<Rightarrow> None | Some (Inl e) \<Rightarrow> Some (Inl e) | Some (Inr x) \<Rightarrow> f x)"

lemma bindR_mono [partial_function_mono]:
  assumes mf: "mono_option B" and mg: "\<And>y. mono_option (\<lambda>f. C y f)"
  shows "mono_option (\<lambda>f. bindR (B f) (\<lambda>y. C y f))"
proof -
  have eq: "(\<lambda>f. bindR (B f) (\<lambda>y. C y f)) =
    (\<lambda>f. Option.bind (B f) (\<lambda>r. case r of Inl e \<Rightarrow> Some (Inl e) | Inr x \<Rightarrow> C x f))"
    by (auto simp: bindR_def fun_eq_iff split: option.splits sum.splits)
  have "mono_option (\<lambda>f. case r of Inl e \<Rightarrow> Some (Inl e) | Inr x \<Rightarrow> C x f)" for r
    by (cases r) (simp_all add: mg option.const_mono)
  then show ?thesis
    unfolding eq by (intro bind_mono mf)
qed

subsection \<open>Python's built-in functions, as far as the program uses them\<close>

text \<open>\<^verbatim>\<open>xs.index(x)\<close>, called only where \<^verbatim>\<open>x in xs\<close> has been tested.\<close>

fun index_of :: "'a list \<Rightarrow> 'a \<Rightarrow> nat" where
  "index_of [] x = 0"
| "index_of (y # ys) x = (if y = x then 0 else Suc (index_of ys x))"

definition is_digit :: "char \<Rightarrow> bool" where
  "is_digit c = (c \<in> set ''0123456789'')"

text \<open>\<^verbatim>\<open>int(j)\<close> for a one-character string \<open>j\<close>.\<close>

definition int_of_char :: "char \<Rightarrow> error + int" where
  "int_of_char c = (if is_digit c then Inr (int (index_of ''0123456789'' c)) else Inl ValueError)"

text \<open>\<^verbatim>\<open>int(s)\<close> on a string: the strings the program converts hold digits only.\<close>

definition int_of_string :: "string \<Rightarrow> error + int" where
  "int_of_string s =
     (if s = [] \<or> (\<exists>c \<in> set s. \<not> is_digit c) then Inl ValueError
      else Inr (foldl (\<lambda>acc c. 10 * acc + int (index_of ''0123456789'' c)) 0 s))"

text \<open>\<^verbatim>\<open>str(i)\<close> for an integer.\<close>

function str_nat :: "nat \<Rightarrow> string" where
  "str_nat n = (if n < 10 then [''0123456789'' ! n] else str_nat (n div 10) @ [''0123456789'' ! (n mod 10)])"
  by pat_completeness auto
termination
  by (relation "measure id") auto

definition str_int :: "int \<Rightarrow> string" where
  "str_int i = (if i < 0 then CHR ''-'' # str_nat (nat (- i)) else str_nat (nat i))"

text \<open>\<^verbatim>\<open>max(xs)\<close> and \<^verbatim>\<open>min(xs)\<close> raise ValueError on an empty list.\<close>

fun py_max :: "int list \<Rightarrow> error + int" where
  "py_max [] = Inl ValueError"
| "py_max (x # xs) = Inr (fold max xs x)"

fun py_min :: "int list \<Rightarrow> error + int" where
  "py_min [] = Inl ValueError"
| "py_min (x # xs) = Inr (fold min xs x)"

text \<open>\<^verbatim>\<open>[f(x) for x in xs]\<close> where \<open>f\<close> may raise: the first exception ends the loop.\<close>

fun mapE :: "('a \<Rightarrow> error + 'b) \<Rightarrow> 'a list \<Rightarrow> error + 'b list" where
  "mapE f [] = Inr []"
| "mapE f (x # xs) = bindE (f x) (\<lambda>y. bindE (mapE f xs) (\<lambda>ys. Inr (y # ys)))"

text \<open>\<^verbatim>\<open>s.strip("()")\<close>: leading and trailing parentheses are dropped.\<close>

definition is_paren :: "char \<Rightarrow> bool" where
  "is_paren c = (c = CHR ''('' \<or> c = CHR '')'')"

definition strip_parens :: "string \<Rightarrow> string" where
  "strip_parens s = rev (dropWhile is_paren (rev (dropWhile is_paren s)))"

text \<open>\<^verbatim>\<open>s.split(")(")\<close>: the pieces between the occurrences of the separator, read from the left.\<close>

fun split_cycles :: "string \<Rightarrow> string list" where
  "split_cycles [] = [[]]"
| "split_cycles [c] = [[c]]"
| "split_cycles (c # d # s) =
     (if c = CHR '')'' \<and> d = CHR ''('' then [] # split_cycles s
      else (case split_cycles (d # s) of w # ws \<Rightarrow> (c # w) # ws | [] \<Rightarrow> [[c]]))"

text \<open>\<^verbatim>\<open>sep.join(xs)\<close>; a string is a list of characters, and the function is written for any list.\<close>

fun join :: "'a list \<Rightarrow> 'a list list \<Rightarrow> 'a list" where
  "join sep [] = []"
| "join sep [x] = x"
| "join sep (x # y # ys) = x @ sep @ join sep (y # ys)"

subsection \<open>The class Perm\<close>

record Perm =
  description :: "int list list"
  pmax :: int
  string :: string

text \<open>
  The body of the \<^verbatim>\<open>for cycle in cycles\<close> loop of \<^verbatim>\<open>apply\<close>: \<^verbatim>\<open>cycle[cycle.index(new) + 1]\<close>,
  an IndexError past the end of the list.
\<close>

definition next_in :: "int list \<Rightarrow> int \<Rightarrow> error + int" where
  "next_in cycle new =
     (let i = index_of cycle new + 1
      in if i < length cycle then Inr (cycle ! i) else Inl IndexError)"

text \<open>The \<^verbatim>\<open>for cycle in cycles\<close> loop: \<open>new\<close> is sent through every cycle in turn.\<close>

fun follow :: "int list list \<Rightarrow> int \<Rightarrow> error + int" where
  "follow [] new = Inr new"
| "follow (cycle # cycles) new =
     (if new \<in> set cycle then bindE (next_in cycle new) (follow cycles)
      else follow cycles new)"

text \<open>
  The inner loop \<^verbatim>\<open>while result[-1].count(element) < 2\<close> on the list \<open>r = result[-1]\<close>,
  which starts as \<open>[element]\<close> and only grows.
\<close>

partial_function (option) orbit :: "int list list \<Rightarrow> int \<Rightarrow> int list \<Rightarrow> (error + int list) option" where
  "orbit cycles element r =
     (if count_list r element < 2
      then (case follow cycles (last r) of
              Inl e \<Rightarrow> Some (Inl e)
            | Inr new \<Rightarrow> orbit cycles element (r @ [new]))
      else Some (Inr r))"

declare orbit.simps [code]

text \<open>The outer loop \<^verbatim>\<open>while sum([len(i) - 1 for i in result]) < maximum\<close>.\<close>

partial_function (option) apply_loop :: "int \<Rightarrow> int list list \<Rightarrow> int list list \<Rightarrow> (error + int list list) option" where
  "apply_loop maximum cycles result =
     (if (\<Sum>i\<leftarrow>result. int (length i) - 1) < maximum
      then (case py_min [i \<leftarrow> [1..maximum]. \<not> (\<exists>r \<in> set result. i \<in> set r)] of
              Inl e \<Rightarrow> Some (Inl e)
            | Inr element \<Rightarrow>
                bindR (orbit cycles element [element])
                  (\<lambda>r. apply_loop maximum cycles (result @ [r])))
      else Some (Inr result))"

declare apply_loop.simps [code]

text \<open>The returned string: every cycle without its closing element, in parentheses.\<close>

definition cycles_text :: "int list list \<Rightarrow> string" where
  "cycles_text cs = ''('' @ join '')('' (map (\<lambda>c. concat (map str_int c)) cs) @ '')''"

definition render :: "int list list \<Rightarrow> string" where
  "render result = cycles_text (map butlast result)"

definition Perm_apply :: "int \<Rightarrow> int list list \<Rightarrow> (error + string) option" where
  "Perm_apply maximum cycles = bindR (apply_loop maximum cycles []) (\<lambda>result. Some (Inr (render result)))"

text \<open>\<^verbatim>\<open>__init__\<close>: every cycle of the text is read twice over, one integer for each character.\<close>

definition parse_description :: "string \<Rightarrow> error + int list list" where
  "parse_description descr = mapE (\<lambda>i. mapE int_of_char (i @ i)) (split_cycles (strip_parens descr))"

text \<open>\<^verbatim>\<open>max([max(i) for i in self.description]) if maximum is None else maximum\<close>.\<close>

definition ground_size :: "int list list \<Rightarrow> int option \<Rightarrow> error + int" where
  "ground_size d maxarg =
     (case maxarg of
        None \<Rightarrow> bindE (mapE py_max d) py_max
      | Some m \<Rightarrow> Inr m)"

definition Perm_init :: "string \<Rightarrow> int option \<Rightarrow> (error + Perm) option" where
  "Perm_init descr maxarg =
     bindR (Some (parse_description descr)) (\<lambda>d.
     bindR (Some (ground_size d maxarg)) (\<lambda>m.
     bindR (Perm_apply m d) (\<lambda>s.
     Some (Inr \<lparr>description = d, pmax = m, string = s\<rparr>))))"

text \<open>\<^verbatim>\<open>__repr__\<close> is the full text, \<^verbatim>\<open>__str__\<close> the text without the one-digit cycles, or "e".\<close>

definition Perm_repr :: "Perm \<Rightarrow> string" where
  "Perm_repr self = string self"

text \<open>\<^verbatim>\<open>sub("\(\d\)", "", s)\<close>: the matches are removed from the left.\<close>

fun sub_fixed :: "string \<Rightarrow> string" where
  "sub_fixed (a # b # c # s) =
     (if a = CHR ''('' \<and> is_digit b \<and> c = CHR '')'' then sub_fixed s
      else a # sub_fixed (b # c # s))"
| "sub_fixed s = s"

definition Perm_str :: "Perm \<Rightarrow> string" where
  "Perm_str self = (let s = sub_fixed (Perm_repr self) in if s = [] then ''e'' else s)"

definition Perm_mul :: "Perm \<Rightarrow> Perm \<Rightarrow> (error + Perm) option" where
  "Perm_mul self other =
     bindR (Perm_apply (max (pmax self) (pmax other)) (rev (description other) @ rev (description self)))
       (\<lambda>s. Perm_init s None)"

definition Perm_hash :: "Perm \<Rightarrow> error + int" where
  "Perm_hash self = int_of_string (map (\<lambda>c. if is_digit c then c else CHR ''0'') (string self))"

definition Perm_eq :: "Perm \<Rightarrow> Perm \<Rightarrow> error + bool" where
  "Perm_eq self other = bindE (Perm_hash self) (\<lambda>h. bindE (Perm_hash other) (\<lambda>k. Inr (h = k)))"

definition Perm_ne :: "Perm \<Rightarrow> Perm \<Rightarrow> error + bool" where
  "Perm_ne self other = bindE (Perm_eq self other) (\<lambda>b. Inr (\<not> b))"


text \<open>The loop of \<^verbatim>\<open>inverse\<close>, on the variable \<open>x\<close>.\<close>

partial_function (option) inverse_loop :: "Perm \<Rightarrow> Perm \<Rightarrow> (error + Perm) option" where
  "inverse_loop self x =
     bindR (Perm_mul x self) (\<lambda>new.
     bindR (Perm_init [] (Some (pmax self))) (\<lambda>ident.
     bindR (Some (Perm_ne new ident)) (\<lambda>b.
     if b then inverse_loop self new else Some (Inr x))))"

declare inverse_loop.simps [code]

definition Perm_inverse :: "Perm \<Rightarrow> (error + Perm) option" where
  "Perm_inverse self = inverse_loop self self"

text \<open>The loop of \<^verbatim>\<open>order\<close>, on the variables \<open>x\<close> and \<open>n\<close>.\<close>

partial_function (option) order_loop :: "Perm \<Rightarrow> Perm \<Rightarrow> int \<Rightarrow> (error + int) option" where
  "order_loop self x n =
     bindR (Perm_mul x self) (\<lambda>new.
     bindR (Perm_init [] (Some (pmax self))) (\<lambda>ident.
     bindR (Some (Perm_ne new ident)) (\<lambda>b.
     if b then order_loop self new (n + 1) else Some (Inr (n + 1)))))"

declare order_loop.simps [code]

definition Perm_order :: "Perm \<Rightarrow> (error + int) option" where
  "Perm_order self = order_loop self self 1"

text \<open>
  \<^verbatim>\<open>__pow__\<close>, with \<open>k\<close> for the argument \<^verbatim>\<open>power\<close>. For a negative power the source calls the value of the property \<^verbatim>\<open>inverse\<close>,
  a \<^verbatim>\<open>Perm\<close>, which is not callable: a TypeError, once the inverse has been computed.
\<close>

function Perm_pow :: "Perm \<Rightarrow> int \<Rightarrow> (error + Perm) option" where
  "Perm_pow self k =
     (if k < 0
      then bindR (Perm_pow self (- k)) (\<lambda>p. bindR (Perm_inverse p) (\<lambda>q. Some (Inl TypeError)))
      else if k = 0 then Perm_init [] (Some (pmax self))
      else if k = 1 then Some (Inr self)
      else bindR (Perm_pow self (k - 1)) (\<lambda>p. Perm_mul p self))"
  by pat_completeness auto
termination
  by (relation "measure (\<lambda>(self, k). if k < 0 then nat (- k) + 1 else nat k)") auto

declare Perm_pow.simps [simp del]

subsection \<open>The generated group\<close>

text \<open>\<^verbatim>\<open>prod in xs\<close> compares with \<^verbatim>\<open>__eq__\<close>, from the left.\<close>

fun Perm_in :: "Perm \<Rightarrow> Perm list \<Rightarrow> error + bool" where
  "Perm_in prd [] = Inr False"
| "Perm_in prd (x # xs) = bindE (Perm_eq x prd) (\<lambda>b. if b then Inr True else Perm_in prd xs)"

text \<open>The \<^verbatim>\<open>for (sigma, tau) in product(group, group)\<close> loop, on the variable \<open>new\<close>.\<close>

fun products :: "Perm list \<Rightarrow> (Perm \<times> Perm) list \<Rightarrow> Perm list \<Rightarrow> (error + Perm list) option" where
  "products grp [] new = Some (Inr new)"
| "products grp ((sigma, tau) # pairs) new =
     bindR (Perm_mul sigma tau) (\<lambda>prd.
     bindR (Some (Perm_in prd grp)) (\<lambda>known.
     if known then products grp pairs new
     else bindR (Some (Perm_in prd new)) (\<lambda>found.
          if found then products grp pairs new
          else products grp pairs (new @ [prd]))))"

text \<open>The loop \<^verbatim>\<open>while size != len(group)\<close>.\<close>

partial_function (option) group_loop :: "Perm list \<Rightarrow> int \<Rightarrow> (error + Perm list) option" where
  "group_loop grp sz =
     (if sz \<noteq> int (length grp)
      then bindR (products grp (List.product grp grp) [])
             (\<lambda>new. group_loop (grp @ new) (int (length grp)))
      else Some (Inr grp))"

declare group_loop.simps [code]

text \<open>
  \<^verbatim>\<open>sorted(group)\<close> with \<^verbatim>\<open>__lt__\<close>: a stable sort, the larger hash first.
\<close>

definition py_sorted :: "Perm list \<Rightarrow> error + Perm list" where
  "py_sorted grp =
     bindE (mapE Perm_hash grp) (\<lambda>hs. Inr (map snd (sort_key (\<lambda>(h, p). - h) (zip hs grp))))"

definition generate_group :: "Perm list \<Rightarrow> (error + Perm list) option" where
  "generate_group elements = bindR (group_loop elements 0) (\<lambda>grp. Some (py_sorted grp))"

subsection \<open>The sign\<close>

text \<open>The function \<^verbatim>\<open>sgn\<close> of the source.\<close>

definition sgn_perm :: "Perm \<Rightarrow> int" where
  "sgn_perm sigma = (- 1) ^ (\<Sum>s\<leftarrow>split_cycles (strip_parens (Perm_str sigma)). length s + 1)"

subsection \<open>The spec's reading of equality\<close>

text \<open>
  The specification describes the hash as the full text with the non-digit characters
  removed, read as an integer. This definition follows those words; \<open>Perm_hash\<close> above
  follows the source, which puts the digit 0 in the place of each such character.
\<close>

definition digits_collapsed :: "Perm \<Rightarrow> error + int" where
  "digits_collapsed p = int_of_string (filter is_digit (string p))"

section \<open>What the properties speak of\<close>

subsection \<open>Well-formed permutations\<close>

text \<open>
  \<^verbatim>\<open>__init__\<close> stores every cycle twice over (\<^verbatim>\<open>i * 2\<close>); \<open>halve\<close> is the cycle as it was
  written.
\<close>

definition halve :: "int list \<Rightarrow> int list" where
  "halve c = take (length c div 2) c"

text \<open>
  A description whose cycles are doubled lists of distinct elements of \<open>{1..n}\<close>. The same
  element may stand in two cycles.
\<close>

definition cycles_ok :: "int \<Rightarrow> int list list \<Rightarrow> bool" where
  "cycles_ok n d \<longleftrightarrow>
     (\<forall>c \<in> set d. c = halve c @ halve c \<and> distinct (halve c) \<and> (\<forall>x \<in> set c. 1 \<le> x \<and> x \<le> n))"

text \<open>A description in disjoint cycles: no element stands twice in it.\<close>

definition wf_description :: "int \<Rightarrow> int list list \<Rightarrow> bool" where
  "wf_description n d \<longleftrightarrow> cycles_ok n d \<and> distinct (concat (map halve d))"

text \<open>
  The permutations of the specification's data model, in the one-character notation of
  the source: an object as \<^verbatim>\<open>__init__\<close> builds it (its string is what \<^verbatim>\<open>apply\<close> returned
  for its description and its ground size), on a ground set \<open>{1..n}\<close> with \<open>1 \<le> n \<le> 9\<close>,
  described by disjoint cycles of elements of the ground set.
\<close>

definition valid_perm :: "Perm \<Rightarrow> bool" where
  "valid_perm p \<longleftrightarrow>
     1 \<le> pmax p \<and> pmax p \<le> 9
     \<and> wf_description (pmax p) (description p)
     \<and> Perm_apply (pmax p) (description p) = Some (Inr (string p))"

text \<open>
  Where a permutation sends a point: the \<^verbatim>\<open>for cycle in cycles\<close> loop of \<^verbatim>\<open>apply\<close> on the
  permutation's description.
\<close>

definition image_of :: "Perm \<Rightarrow> int \<Rightarrow> error + int" where
  "image_of p x = follow (description p) x"

subsection \<open>The mapping that a cycle text describes\<close>

text \<open>
  The mapping of a cycle text, written from the cycle notation and not from the loops of
  \<^verbatim>\<open>apply\<close>. A cycle \<open>w\<close>, as it is written, sends each of its elements to the element
  written after it and its last element to its first; a point that is not in the cycle
  stays where it is.
\<close>

definition nxt :: "int list \<Rightarrow> int \<Rightarrow> int" where
  "nxt w x = (if x \<in> set w then w ! ((index_of w x + 1) mod length w) else x)"

text \<open>
  The mapping of a description: its cycles as they were written (\<open>halve\<close>), applied one
  after the other from the first to the last. For disjoint cycles the order does not
  matter, and this is the permutation that the cycle notation denotes.
\<close>

definition perm_fun :: "int list list \<Rightarrow> int \<Rightarrow> int" where
  "perm_fun d = fold nxt (map halve d)"


subsection \<open>The cycles of a text\<close>




subsection \<open>Canonical decompositions\<close>

text \<open>
  The cycles \<open>cs\<close> are a canonical decomposition on \<open>{1..n}\<close>: every element of \<open>{1..n}\<close>
  stands in exactly one cycle, every cycle starts at its smallest element, and the cycles
  are in the ascending order of their smallest elements.
\<close>

definition canonical :: "int \<Rightarrow> int list list \<Rightarrow> bool" where
  "canonical n cs \<longleftrightarrow>
     distinct (concat cs) \<and> set (concat cs) = {1..n}
     \<and> (\<forall>c \<in> set cs. c \<noteq> [] \<and> hd c = Min (set c))
     \<and> sorted_wrt (<) (map (\<lambda>c. Min (set c)) cs)"

text \<open>
  The cycles \<open>cs\<close> are cycles of the mapping that the description \<open>d\<close> stands for: \<open>d\<close>
  sends every element of a cycle to the next one, and the last to the first.
\<close>

definition represents :: "int list list \<Rightarrow> int list list \<Rightarrow> bool" where
  "represents cs d \<longleftrightarrow>
     (\<forall>c \<in> set cs. \<forall>i < length c. follow d (c ! i) = Inr (c ! ((i + 1) mod length c)))"

subsection \<open>Notions of the proofs\<close>

text \<open>The first return of \<open>e\<close> to itself under \<open>f\<close>, and the list the inner loop builds.\<close>

definition period :: "(int \<Rightarrow> int) \<Rightarrow> int \<Rightarrow> nat" where
  "period f e = (LEAST k. 0 < k \<and> (f ^^ k) e = e)"

definition orb :: "(int \<Rightarrow> int) \<Rightarrow> int \<Rightarrow> nat \<Rightarrow> int list" where
  "orb f e k = map (\<lambda>i. (f ^^ i) e) [0..<k]"

definition closed_orbit :: "(int \<Rightarrow> int) \<Rightarrow> int \<Rightarrow> int list" where
  "closed_orbit f e = orb f e (period f e) @ [e]"

text \<open>The description \<open>cycles\<close> acts on \<open>{1..n}\<close> as the injective function \<open>f\<close>.\<close>

definition acts :: "int list list \<Rightarrow> (int \<Rightarrow> int) \<Rightarrow> int \<Rightarrow> bool" where
  "acts cycles f n \<longleftrightarrow> inj f \<and> (\<forall>x \<in> {1..n}. follow cycles x = Inr (f x) \<and> f x \<in> {1..n})"

text \<open>The points placed so far, and the invariant of the outer loop of \<^verbatim>\<open>apply\<close>.\<close>

definition covered :: "int list list \<Rightarrow> int set" where
  "covered result = set (concat (map butlast result))"

definition loop_inv :: "(int \<Rightarrow> int) \<Rightarrow> int \<Rightarrow> int list list \<Rightarrow> bool" where
  "loop_inv f n result \<longleftrightarrow>
     (\<forall>r \<in> set result. \<exists>e \<in> {1..n}. r = closed_orbit f e)
     \<and> distinct (concat (map butlast result))
     \<and> (\<forall>r \<in> set result. \<forall>x \<in> set r. hd r \<le> x)
     \<and> sorted_wrt (<) (map hd result)
     \<and> (\<forall>x \<in> {1..n}. x \<notin> covered result \<longrightarrow> (\<forall>r \<in> set result. hd r < x))"

text \<open>The character of a one-digit number.\<close>

definition digit_char :: "int \<Rightarrow> char" where
  "digit_char x = ''0123456789'' ! nat x"

definition single_digits :: "int list \<Rightarrow> bool" where
  "single_digits c \<longleftrightarrow> (\<forall>x \<in> set c. 0 \<le> x \<and> x \<le> 9)"

text \<open>The number that a list of digits writes, and cycles of the digits 1 to 9.\<close>

definition dec :: "int list \<Rightarrow> int" where
  "dec ds = foldl (\<lambda>a d. 10 * a + d) 0 ds"

definition one_to_nine :: "int list list \<Rightarrow> bool" where
  "one_to_nine cs \<longleftrightarrow> cs \<noteq> [] \<and> (\<forall>c \<in> set cs. c \<noteq> [] \<and> (\<forall>x \<in> set c. 1 \<le> x \<and> x \<le> 9))"

text \<open>In the loops of \<^verbatim>\<open>inverse\<close> and \<^verbatim>\<open>order\<close>: \<open>x\<close> is the \<open>j\<close>-th power of \<open>self\<close>, which acts as \<open>f\<close>.\<close>

definition is_power :: "Perm \<Rightarrow> (int \<Rightarrow> int) \<Rightarrow> nat \<Rightarrow> Perm \<Rightarrow> bool" where
  "is_power self f j x \<longleftrightarrow>
     valid_perm x \<and> pmax x = pmax self \<and> (\<forall>y. image_of x y = Inr ((f ^^ j) y))"

text \<open>
  For the evaluation of a closure. The permutation with a given text; the product of valid
  permutations, which is the permutation with the text that \<^verbatim>\<open>apply\<close> returns; and the
  \<^verbatim>\<open>for\<close> loop of \<^verbatim>\<open>generate_group\<close> on valid permutations, which are equal when their texts are.
\<close>

definition text_perm :: "int \<Rightarrow> string \<Rightarrow> Perm" where
  "text_perm n s =
     \<lparr>description = (case parse_description s of Inr d \<Rightarrow> d | Inl e \<Rightarrow> []), pmax = n, string = s\<rparr>"

definition mul_text :: "Perm \<Rightarrow> Perm \<Rightarrow> (error + Perm) option" where
  "mul_text p q =
     bindR (Perm_apply (max (pmax p) (pmax q)) (rev (description q) @ rev (description p)))
       (\<lambda>s. Some (Inr (text_perm (max (pmax p) (pmax q)) s)))"

fun products_text :: "string list \<Rightarrow> (Perm \<times> Perm) list \<Rightarrow> Perm list \<Rightarrow> (error + Perm list) option" where
  "products_text known [] new = Some (Inr new)"
| "products_text known ((sigma, tau) # pairs) new =
     bindR (mul_text sigma tau) (\<lambda>prd.
       if string prd \<in> set known \<or> string prd \<in> set (map string new)
       then products_text known pairs new
       else products_text known pairs (new @ [prd]))"

text \<open>
  The full texts of the 24 permutations of four points, in the order in which
  \<^verbatim>\<open>generate_group(Perm("(1234)"), Perm("(123)(4)"))\<close> finds them, and the first \<open>k\<close> of them.
\<close>

definition S4_texts :: "string list" where
  "S4_texts =
     [''(1234)'', ''(123)(4)'',
      ''(13)(24)'', ''(1324)'', ''(1342)'', ''(132)(4)'',
      ''(1432)'', ''(142)(3)'', ''(143)(2)'', ''(14)(2)(3)'', ''(1)(243)'', ''(1)(24)(3)'',
      ''(1)(2)(34)'', ''(1)(2)(3)(4)'', ''(1)(23)(4)'', ''(1)(234)'', ''(12)(3)(4)'', ''(12)(34)'',
      ''(14)(23)'', ''(1423)'', ''(124)(3)'', ''(1243)'',
      ''(134)(2)'', ''(13)(2)(4)'']"

definition S4_found :: "nat \<Rightarrow> Perm list" where
  "S4_found k = map (text_perm 4) (take k S4_texts)"



section \<open>Properties\<close>

subsection \<open>Results and exceptions\<close>

lemma bindR_simps [simp]:
  "bindR None f = None"
  "bindR (Some (Inl e)) f = Some (Inl e)"
  "bindR (Some (Inr x)) f = f x"
  by (simp_all add: bindR_def)

lemma bindE_simps [simp]:
  "bindE (Inl e) f = Inl e"
  "bindE (Inr x) f = f x"
  by (simp_all add: bindE_def)
subsection \<open>Cycles as functions\<close>

lemma halve_double [simp]: "halve (w @ w) = w"
  by (simp add: halve_def)

lemma index_of_less: "x \<in> set w \<Longrightarrow> index_of w x < length w"
  by (induction w) auto

lemma nth_index_of: "x \<in> set w \<Longrightarrow> w ! index_of w x = x"
  by (induction w) auto

lemma index_of_nth: "distinct w \<Longrightarrow> i < length w \<Longrightarrow> index_of w (w ! i) = i"
proof (induction w arbitrary: i)
  case Nil
  then show ?case by simp
next
  case (Cons a w)
  then show ?case by (cases i) auto
qed

lemma index_of_append: "x \<in> set w \<Longrightarrow> index_of (w @ v) x = index_of w x"
  by (induction w) auto

lemma next_in_double:
  assumes "x \<in> set w"
  shows "next_in (w @ w) x = Inr (nxt w x)"
proof -
  let ?i = "index_of w x"
  have i: "?i < length w" using assms by (rule index_of_less)
  have "(w @ w) ! (?i + 1) = w ! ((?i + 1) mod length w)"
  proof (cases "?i + 1 < length w")
    case True
    then show ?thesis by (simp add: nth_append)
  next
    case False
    with i have "?i + 1 = length w" by simp
    then show ?thesis using i by (simp add: nth_append)
  qed
  then show ?thesis
    using assms i by (simp add: next_in_def nxt_def index_of_append Let_def)
qed

lemma follow_double: "follow (map (\<lambda>w. w @ w) ws) x = Inr (fold nxt ws x)"
proof (induction ws arbitrary: x)
  case Nil
  then show ?case by simp
next
  case (Cons w ws)
  show ?case
  proof (cases "x \<in> set w")
    case True
    then show ?thesis by (simp add: next_in_double Cons.IH)
  next
    case False
    then show ?thesis by (simp add: Cons.IH nxt_def)
  qed
qed

lemma nxt_in: "x \<in> set w \<Longrightarrow> nxt w x \<in> set w"
proof -
  assume x: "x \<in> set w"
  then have "0 < length w" by (cases w) auto
  then have "w ! ((index_of w x + 1) mod length w) \<in> set w" by (intro nth_mem) simp
  with x show ?thesis by (simp add: nxt_def)
qed

lemma nxt_notin: "x \<notin> set w \<Longrightarrow> nxt w x = x"
  by (simp add: nxt_def)

lemma nxt_in_iff: "nxt w x \<in> set w \<longleftrightarrow> x \<in> set w"
  using nxt_in nxt_notin by metis

lemma inj_nxt:
  assumes "distinct w"
  shows "inj (nxt w)"
proof (rule injI)
  fix x y
  assume eq: "nxt w x = nxt w y"
  show "x = y"
  proof (cases "x \<in> set w")
    case True
    then have "nxt w x \<in> set w" by (rule nxt_in)
    then have y: "y \<in> set w" using eq nxt_in_iff by metis
    let ?l = "length w"
    have l: "0 < ?l" using True by (cases w) auto
    let ?i = "(index_of w x + 1) mod ?l" and ?j = "(index_of w y + 1) mod ?l"
    have "w ! ?i = w ! ?j" using eq True y by (simp add: nxt_def)
    moreover have "?i < ?l" "?j < ?l" using l by simp_all
    ultimately have m: "?i = ?j" using assms by (simp add: nth_eq_iff_index_eq)
    have ix: "index_of w x < ?l" and iy: "index_of w y < ?l"
      using True y by (simp_all add: index_of_less)
    have "index_of w x = index_of w y"
    proof (cases "index_of w x + 1 < ?l")
      case a: True
      show ?thesis
      proof (cases "index_of w y + 1 < ?l")
        case True
        with a m show ?thesis by simp
      next
        case False
        with iy have "index_of w y + 1 = ?l" by simp
        with a m show ?thesis by simp
      qed
    next
      case a: False
      with ix have ax: "index_of w x + 1 = ?l" by simp
      show ?thesis
      proof (cases "index_of w y + 1 < ?l")
        case True
        with ax m show ?thesis by simp
      next
        case False
        with iy ax show ?thesis by simp
      qed
    qed
    then have "w ! index_of w x = w ! index_of w y" by simp
    then show ?thesis using True y by (simp add: nth_index_of)
  next
    case False
    then have "nxt w x = x" by (rule nxt_notin)
    then have "nxt w y \<notin> set w" using eq False by simp
    then have "y \<notin> set w" using nxt_in by blast
    then show ?thesis using eq False by (simp add: nxt_def)
  qed
qed

lemma inj_fold_nxt: "\<forall>w \<in> set ws. distinct w \<Longrightarrow> inj (fold nxt ws)"
proof (induction ws)
  case Nil
  then show ?case by (simp add: inj_def)
next
  case (Cons w ws)
  then have "inj (fold nxt ws)" "inj (nxt w)" by (simp_all add: inj_nxt)
  then have "inj (fold nxt ws \<circ> nxt w)" by (rule inj_compose)
  then show ?case by (simp add: comp_def)
qed

lemma fold_nxt_in:
  "\<forall>w \<in> set ws. set w \<subseteq> S \<Longrightarrow> x \<in> S \<Longrightarrow> fold nxt ws x \<in> S"
proof (induction ws arbitrary: x)
  case Nil
  then show ?case by simp
next
  case (Cons w ws)
  have "nxt w x \<in> S"
  proof (cases "x \<in> set w")
    case True
    then have "nxt w x \<in> set w" by (rule nxt_in)
    then show ?thesis using Cons.prems by auto
  next
    case False
    then show ?thesis using Cons.prems by (simp add: nxt_def)
  qed
  then show ?case using Cons by simp
qed

lemma fold_nxt_outside:
  "\<forall>w \<in> set ws. x \<notin> set w \<Longrightarrow> fold nxt ws x = x"
  by (induction ws) (simp_all add: nxt_def)

subsection \<open>The inner loop traces the orbit\<close>

lemma funpow_in:
  assumes "\<And>x. x \<in> S \<Longrightarrow> f x \<in> S" and "e \<in> S"
  shows "(f ^^ i) e \<in> S"
  using assms by (induction i) auto

lemma returns_to_start:
  assumes inj: "inj f" and fin: "finite S" and cl: "\<And>x. x \<in> S \<Longrightarrow> f x \<in> S" and e: "e \<in> S"
  shows "\<exists>k>0. (f ^^ k) e = e"
proof -
  have "range (\<lambda>i. (f ^^ i) e) \<subseteq> S"
    using funpow_in[of S f e] cl e by auto
  then have "finite (range (\<lambda>i. (f ^^ i) e))" using fin by (rule finite_subset)
  then have "\<not> inj (\<lambda>i. (f ^^ i) e)" using finite_imageD by fastforce
  then obtain i j where ij: "(f ^^ i) e = (f ^^ j) e" "i \<noteq> j"
    by (auto simp: inj_def)
  have main: "\<exists>k>0. (f ^^ k) e = e" if "a < b" "(f ^^ a) e = (f ^^ b) e" for a b
  proof -
    have "(f ^^ (a + (b - a))) e = (f ^^ a) ((f ^^ (b - a)) e)"
      by (simp only: funpow_add comp_apply)
    then have "(f ^^ a) ((f ^^ (b - a)) e) = (f ^^ a) e"
      using that by simp
    moreover have "inj (f ^^ a)" using inj by (induction a) (auto intro: inj_compose)
    ultimately have "(f ^^ (b - a)) e = e" by (simp add: inj_eq)
    then show ?thesis using that(1) by (intro exI[of _ "b - a"]) simp
  qed
  show ?thesis
  proof (cases "i < j")
    case True
    then show ?thesis using main ij by blast
  next
    case False
    then have "j < i" using ij by simp
    then show ?thesis using main[of j i] ij by simp
  qed
qed

lemma orb_Suc: "orb f e (Suc k) = orb f e k @ [(f ^^ k) e]"
  by (simp add: orb_def)

lemma orb_0 [simp]: "orb f e 0 = []"
  by (simp add: orb_def)

lemma length_orb [simp]: "length (orb f e k) = k"
  by (simp add: orb_def)

lemma nth_orb: "i < k \<Longrightarrow> orb f e k ! i = (f ^^ i) e"
  by (simp add: orb_def)

lemma set_orb: "set (orb f e k) = (\<lambda>i. (f ^^ i) e) ` {..<k}"
  by (auto simp: orb_def)

lemma period_props:
  assumes "\<exists>k>0. (f ^^ k) e = e"
  shows "0 < period f e" "(f ^^ period f e) e = e" "\<And>i. 0 < i \<Longrightarrow> i < period f e \<Longrightarrow> (f ^^ i) e \<noteq> e"
proof -
  from assms obtain k where k: "0 < k \<and> (f ^^ k) e = e" by blast
  have "0 < period f e \<and> (f ^^ period f e) e = e"
    unfolding period_def using k by (rule LeastI)
  then show "0 < period f e" "(f ^^ period f e) e = e" by simp_all
  fix i :: nat assume "0 < i" "i < period f e"
  then show "(f ^^ i) e \<noteq> e"
    unfolding period_def using not_less_Least by blast
qed

lemma orbit_continue:
  assumes "count_list r e < 2" "follow cycles (last r) = Inr y"
  shows "orbit cycles e r = orbit cycles e (r @ [y])"
  using assms by (subst orbit.simps) simp

lemma orbit_stop:
  assumes "\<not> count_list r e < 2"
  shows "orbit cycles e r = Some (Inr r)"
  using assms by (subst orbit.simps) simp

lemma count_list_orb:
  assumes "\<And>i. 0 < i \<Longrightarrow> i \<le> j \<Longrightarrow> (f ^^ i) e \<noteq> e"
  shows "count_list (orb f e (Suc j)) e = 1"
  using assms
proof (induction j)
  case 0
  then show ?case by (simp add: orb_Suc)
next
  case (Suc j)
  then have "count_list (orb f e (Suc j)) e = 1" by simp
  moreover have "(f ^^ Suc j) e \<noteq> e" using Suc.prems[of "Suc j"] by simp
  ultimately show ?case by (subst orb_Suc) simp
qed

lemma orbit_from_prefix:
  assumes fol: "\<And>x. x \<in> S \<Longrightarrow> follow cycles x = Inr (f x)"
    and cl: "\<And>x. x \<in> S \<Longrightarrow> f x \<in> S" and e: "e \<in> S"
    and ex: "\<exists>k>0. (f ^^ k) e = e"
    and j: "j < period f e"
  shows "orbit cycles e (orb f e (Suc j)) = Some (Inr (closed_orbit f e))"
  using j
proof (induction "period f e - Suc j" arbitrary: j)
  case 0
  then have pj: "period f e = Suc j" by simp
  let ?r = "orb f e (Suc j)"
  have c1: "count_list ?r e = 1"
    using period_props(3)[OF ex] pj by (intro count_list_orb) simp_all
  have "last ?r = (f ^^ j) e" by (simp add: orb_Suc)
  moreover have "(f ^^ j) e \<in> S" using funpow_in[of S f e j] cl e by simp
  ultimately have "follow cycles (last ?r) = Inr (f ((f ^^ j) e))" using fol by simp
  also have "f ((f ^^ j) e) = e" using period_props(2)[OF ex] pj by simp
  finally have "orbit cycles e ?r = orbit cycles e (?r @ [e])"
    using c1 by (intro orbit_continue) simp_all
  also have "\<dots> = Some (Inr (?r @ [e]))"
    using c1 by (intro orbit_stop) simp
  finally show ?case using pj by (simp add: closed_orbit_def)
next
  case (Suc d)
  then have sj: "Suc j < period f e" by simp
  let ?r = "orb f e (Suc j)"
  have c1: "count_list ?r e = 1"
    using period_props(3)[OF ex] sj by (intro count_list_orb) simp_all
  have "last ?r = (f ^^ j) e" by (simp add: orb_Suc)
  moreover have "(f ^^ j) e \<in> S" using funpow_in[of S f e j] cl e by simp
  ultimately have "follow cycles (last ?r) = Inr (f ((f ^^ j) e))" using fol by simp
  then have "orbit cycles e ?r = orbit cycles e (?r @ [f ((f ^^ j) e)])"
    using c1 by (intro orbit_continue) simp_all
  also have "?r @ [f ((f ^^ j) e)] = orb f e (Suc (Suc j))" by (simp add: orb_Suc)
  also have "orbit cycles e \<dots> = Some (Inr (closed_orbit f e))"
    using Suc sj by (intro Suc.hyps(1)) simp_all
  finally show ?case .
qed

lemma orbit_closed_form:
  assumes fol: "\<And>x. x \<in> S \<Longrightarrow> follow cycles x = Inr (f x)"
    and cl: "\<And>x. x \<in> S \<Longrightarrow> f x \<in> S" and e: "e \<in> S"
    and ex: "\<exists>k>0. (f ^^ k) e = e"
  shows "orbit cycles e [e] = Some (Inr (closed_orbit f e))"
proof -
  have "orbit cycles e (orb f e (Suc 0)) = Some (Inr (closed_orbit f e))"
    using fol cl e ex period_props(1)[OF ex] by (rule orbit_from_prefix)
  then show ?thesis by (simp add: orb_Suc)
qed

subsection \<open>The invariant of the outer loop\<close>

lemma acts_returns:
  assumes "acts cycles f n" "e \<in> {1..n}"
  shows "\<exists>k>0. (f ^^ k) e = e"
  using assms by (intro returns_to_start[where S = "{1..n}"]) (auto simp: acts_def)

lemma inj_funpow: "inj (f :: 'a \<Rightarrow> 'a) \<Longrightarrow> inj (f ^^ i)"
  by (rule inj_fn)

lemma funpow_add_apply: "((f :: 'a \<Rightarrow> 'a) ^^ (a + b)) x = (f ^^ a) ((f ^^ b) x)"
  by (simp only: funpow_add comp_apply)

lemma butlast_closed_orbit [simp]: "butlast (closed_orbit f e) = orb f e (period f e)"
  by (simp add: closed_orbit_def)

lemma length_closed_orbit [simp]: "length (closed_orbit f e) = Suc (period f e)"
  by (simp add: closed_orbit_def)

lemma orb_first: "0 < k \<Longrightarrow> orb f e k = e # tl (orb f e k)"
  by (cases k) (simp_all add: orb_def upt_rec)

lemma e_in_orb: "0 < k \<Longrightarrow> e \<in> set (orb f e k)"
  by (subst orb_first) simp_all

lemma hd_closed_orbit:
  assumes "0 < period f e"
  shows "hd (closed_orbit f e) = e"
proof -
  have "orb f e (period f e) = e # tl (orb f e (period f e))"
    using assms by (rule orb_first)
  then have "closed_orbit f e = e # (tl (orb f e (period f e)) @ [e])"
    by (simp add: closed_orbit_def)
  then show ?thesis by simp
qed

lemma set_closed_orbit:
  assumes "0 < period f e"
  shows "set (closed_orbit f e) = set (orb f e (period f e))"
  using e_in_orb[OF assms, where e = e and f = f] by (auto simp: closed_orbit_def)

lemma distinct_orb:
  assumes inj: "inj f" and ex: "\<exists>k>0. (f ^^ k) e = e"
  shows "distinct (orb f e (period f e))"
proof -
  have "(f ^^ i) e \<noteq> (f ^^ j) e" if "i < j" "j < period f e" for i j
  proof
    assume eq: "(f ^^ i) e = (f ^^ j) e"
    have "(f ^^ j) e = (f ^^ i) ((f ^^ (j - i)) e)"
      using funpow_add_apply[where f = f and a = i and b = "j - i" and x = e] that by simp
    then have "(f ^^ (j - i)) e = e"
      using eq inj_funpow[OF inj, of i] by (simp add: inj_eq)
    moreover have "0 < j - i" "j - i < period f e" using that by simp_all
    ultimately show False using period_props(3)[OF ex] by blast
  qed
  then have "(f ^^ i) e \<noteq> (f ^^ j) e" if "i \<noteq> j" "i < period f e" "j < period f e" for i j
    using that by (cases "i < j") (auto simp: not_less le_less dest: not_sym)
  then show ?thesis
    by (auto simp: distinct_conv_nth nth_orb)
qed

lemma orb_subset:
  assumes "acts cycles f n" "e \<in> {1..n}"
  shows "set (orb f e k) \<subseteq> {1..n}"
proof -
  have "(f ^^ i) e \<in> {1..n}" for i
    using assms by (intro funpow_in) (auto simp: acts_def)
  then show ?thesis by (auto simp: set_orb)
qed

lemma orb_closed:
  assumes ex: "\<exists>k>0. (f ^^ k) e = e" and x: "x \<in> set (orb f e (period f e))"
  shows "f x \<in> set (orb f e (period f e))"
proof -
  from x obtain i where i: "i < period f e" "x = (f ^^ i) e" by (auto simp: set_orb)
  show ?thesis
  proof (cases "Suc i < period f e")
    case True
    then show ?thesis using i by (auto simp: set_orb intro!: image_eqI[where x = "Suc i"])
  next
    case False
    then have "Suc i = period f e" using i by simp
    then have "f x = e" using period_props(2)[OF ex] i by (metis funpow.simps(2) comp_apply)
    then show ?thesis using e_in_orb[OF period_props(1)[OF ex]] by simp
  qed
qed

lemma orb_back:
  assumes ex: "\<exists>k>0. (f ^^ k) e = e" and x: "x \<in> set (orb f e (period f e))"
  shows "\<exists>m. (f ^^ m) x = e"
proof -
  from x obtain i where i: "i < period f e" "x = (f ^^ i) e" by (auto simp: set_orb)
  have "(f ^^ (period f e - i)) x = (f ^^ (period f e - i + i)) e"
    unfolding i(2) by (rule funpow_add_apply[symmetric])
  also have "\<dots> = e" using i period_props(2)[OF ex] by simp
  finally show ?thesis by blast
qed

lemma covered_append [simp]: "covered (result @ [r]) = covered result \<union> set (butlast r)"
  by (simp add: covered_def)

lemma covered_Nil [simp]: "covered [] = {}"
  by (simp add: covered_def)

lemma covered_closed:
  assumes a: "acts cycles f n" and inv: "loop_inv f n result" and x: "x \<in> covered result"
  shows "f x \<in> covered result"
proof -
  from x obtain r where r: "r \<in> set result" "x \<in> set (butlast r)" by (auto simp: covered_def)
  with inv obtain e where e: "e \<in> {1..n}" "r = closed_orbit f e" by (auto simp: loop_inv_def)
  have "f x \<in> set (butlast r)"
    using orb_closed[OF acts_returns[OF a e(1)]] r(2) e(2) by simp
  then show ?thesis using r(1) by (auto simp: covered_def)
qed

lemma covered_funpow:
  assumes a: "acts cycles f n" and inv: "loop_inv f n result" and x: "x \<in> covered result"
  shows "(f ^^ m) x \<in> covered result"
  using covered_closed[OF a inv] x by (induction m) auto

lemma covered_subset:
  assumes a: "acts cycles f n" and inv: "loop_inv f n result"
  shows "covered result \<subseteq> {1..n}"
proof
  fix x assume "x \<in> covered result"
  then obtain r where r: "r \<in> set result" "x \<in> set (butlast r)" by (auto simp: covered_def)
  with inv obtain e where e: "e \<in> {1..n}" "r = closed_orbit f e" by (auto simp: loop_inv_def)
  then show "x \<in> {1..n}" using orb_subset[OF a e(1), of "period f e"] r(2) by auto
qed

lemma covered_full_sets:
  assumes a: "acts cycles f n" and inv: "loop_inv f n result"
  shows "(\<exists>r \<in> set result. i \<in> set r) \<longleftrightarrow> i \<in> covered result"
proof -
  have "set r = set (butlast r)" if "r \<in> set result" for r
  proof -
    from inv that obtain e where e: "e \<in> {1..n}" "r = closed_orbit f e" by (auto simp: loop_inv_def)
    show ?thesis
      using set_closed_orbit[OF period_props(1)[OF acts_returns[OF a e(1)]]] e(2) by simp
  qed
  then show ?thesis by (auto simp: covered_def)
qed

lemma sum_lengths:
  assumes a: "acts cycles f n" and inv: "loop_inv f n result"
  shows "(\<Sum>i\<leftarrow>result. int (length i) - 1) = int (card (covered result))"
proof -
  have "int (length r) - 1 = int (length (butlast r))" if "r \<in> set result" for r
  proof -
    from inv that obtain e where e: "r = closed_orbit f e" by (auto simp: loop_inv_def)
    then show ?thesis by simp
  qed
  then have "(\<Sum>i\<leftarrow>result. int (length i) - 1) = (\<Sum>i\<leftarrow>result. int (length (butlast i)))"
    by (intro arg_cong[where f = sum_list] map_cong) simp_all
  also have "\<dots> = int (length (concat (map butlast result)))"
    by (induction result) simp_all
  also have "\<dots> = int (card (covered result))"
    using inv distinct_card[of "concat (map butlast result)"] by (simp add: loop_inv_def covered_def)
  finally show ?thesis .
qed

lemma py_min_Min: "xs \<noteq> [] \<Longrightarrow> py_min xs = Inr (Min (set xs))"
proof (cases xs)
  case Nil
  then show "xs \<noteq> [] \<Longrightarrow> ?thesis" by simp
next
  case (Cons a list)
  then show ?thesis using Min.set_eq_fold[of a list] by simp
qed

subsection \<open>The outer loop ends with every point placed\<close>

lemma unplaced_set:
  assumes a: "acts cycles f n" and inv: "loop_inv f n result"
  shows "set [i \<leftarrow> [1..n]. \<not> (\<exists>r \<in> set result. i \<in> set r)] = {1..n} - covered result"
  using covered_full_sets[OF a inv] by auto

lemma loop_step:
  assumes a: "acts cycles f n" and inv: "loop_inv f n result"
    and lt: "int (card (covered result)) < n"
    and U: "U = [i \<leftarrow> [1..n]. \<not> (\<exists>r \<in> set result. i \<in> set r)]"
    and e: "e = Min (set U)"
  shows "U \<noteq> []" and "e \<in> {1..n}" and "e \<notin> covered result"
    and "loop_inv f n (result @ [closed_orbit f e])"
    and "card (covered (result @ [closed_orbit f e])) = card (covered result) + period f e"
proof -
  have setU: "set U = {1..n} - covered result"
    unfolding U using a inv by (rule unplaced_set)
  have sub: "covered result \<subseteq> {1..n}" using a inv by (rule covered_subset)
  show ne: "U \<noteq> []"
  proof
    assume "U = []"
    then have "covered result = {1..n}" using setU sub by auto
    then have "int (card (covered result)) = int (nat n)" by simp
    with lt show False by (simp split: if_splits)
  qed
  then have eU: "e \<in> set U" unfolding e by (intro Min_in) simp_all
  then show eS: "e \<in> {1..n}" and enc: "e \<notin> covered result" using setU by auto
  have ex: "\<exists>k>0. (f ^^ k) e = e" using a eS by (rule acts_returns)
  have pos: "0 < period f e" using ex by (rule period_props(1))
  have inj: "inj f" using a by (simp add: acts_def)
  let ?o = "orb f e (period f e)"
  have disj: "set ?o \<inter> covered result = {}"
  proof (rule ccontr)
    assume "set ?o \<inter> covered result \<noteq> {}"
    then obtain x where x: "x \<in> set ?o" "x \<in> covered result" by blast
    from orb_back[OF ex x(1)] obtain m where "(f ^^ m) x = e" by blast
    then have "e \<in> covered result" using covered_funpow[OF a inv x(2), of m] by simp
    with enc show False by simp
  qed
  have oS: "set ?o \<subseteq> {1..n}" using a eS by (rule orb_subset)
  have oU: "set ?o \<subseteq> set U" using oS disj setU by auto
  have le: "e \<le> x" if "x \<in> set U" for x
    unfolding e using that by (intro Min_le) simp_all
  have hd: "hd (closed_orbit f e) = e" using pos by (rule hd_closed_orbit)
  have seto: "set (closed_orbit f e) = set ?o" using pos by (rule set_closed_orbit)
  have i1: "\<forall>r \<in> set (result @ [closed_orbit f e]). \<exists>e \<in> {1..n}. r = closed_orbit f e"
    using inv eS by (auto simp: loop_inv_def)
  have i2: "distinct (concat (map butlast (result @ [closed_orbit f e])))"
    using inv distinct_orb[OF inj ex] disj by (auto simp: loop_inv_def covered_def)
  have i3: "\<forall>r \<in> set (result @ [closed_orbit f e]). \<forall>x \<in> set r. hd r \<le> x"
    using inv hd seto oU le by (auto simp: loop_inv_def)
  have old_heads: "\<forall>r \<in> set result. hd r < e"
    using inv eS enc by (auto simp: loop_inv_def)
  have i4: "sorted_wrt (<) (map hd (result @ [closed_orbit f e]))"
    using inv old_heads hd by (auto simp: loop_inv_def sorted_wrt_append)
  have i5: "\<forall>x \<in> {1..n}. x \<notin> covered (result @ [closed_orbit f e]) \<longrightarrow>
      (\<forall>r \<in> set (result @ [closed_orbit f e]). hd r < x)"
  proof (intro ballI impI)
    fix x r
    assume x: "x \<in> {1..n}" "x \<notin> covered (result @ [closed_orbit f e])"
      and r: "r \<in> set (result @ [closed_orbit f e])"
    from x have xo: "x \<notin> set ?o" and xc: "x \<notin> covered result" by simp_all
    have "x \<in> set U" using x(1) xc setU by simp
    then have "e \<le> x" by (rule le)
    moreover have "x \<noteq> e" using xo e_in_orb[OF pos, of e f] by auto
    ultimately have "e < x" by simp
    moreover have "hd r' < x" if "r' \<in> set result" for r'
      using inv x(1) xc that by (auto simp: loop_inv_def)
    ultimately show "hd r < x" using r hd by auto
  qed
  show "loop_inv f n (result @ [closed_orbit f e])"
    unfolding loop_inv_def using i1 i2 i3 i4 i5 by blast
  have "finite (covered result)" by (simp add: covered_def)
  then have "card (covered result \<union> set ?o) = card (covered result) + card (set ?o)"
    using disj by (intro card_Un_disjoint) auto
  also have "card (set ?o) = period f e"
    using distinct_card[OF distinct_orb[OF inj ex]] by simp
  finally show "card (covered (result @ [closed_orbit f e])) = card (covered result) + period f e"
    by simp
qed

lemma apply_loop_continue:
  assumes "(\<Sum>i\<leftarrow>result. int (length i) - 1) < maximum"
    and "py_min [i \<leftarrow> [1..maximum]. \<not> (\<exists>r \<in> set result. i \<in> set r)] = Inr element"
    and "orbit cycles element [element] = Some (Inr r)"
  shows "apply_loop maximum cycles result = apply_loop maximum cycles (result @ [r])"
  using assms by (subst apply_loop.simps) simp

lemma apply_loop_stop:
  assumes "\<not> (\<Sum>i\<leftarrow>result. int (length i) - 1) < maximum"
  shows "apply_loop maximum cycles result = Some (Inr result)"
  using assms by (subst apply_loop.simps) simp

lemma acts_orbit:
  assumes a: "acts cycles f n" and e: "e \<in> {1..n}"
  shows "orbit cycles e [e] = Some (Inr (closed_orbit f e))"
proof (rule orbit_closed_form[where S = "{1..n}"])
  show "\<exists>k>0. (f ^^ k) e = e" using a e by (rule acts_returns)
qed (use a e in \<open>auto simp: acts_def\<close>)

lemma apply_loop_total:
  assumes a1: "acts c1 f n" and a2: "acts c2 f n" and inv: "loop_inv f n result"
  shows "\<exists>final. apply_loop n c1 result = Some (Inr final)
           \<and> apply_loop n c2 result = Some (Inr final)
           \<and> loop_inv f n final \<and> covered final = {1..n}"
  using inv
proof (induction "nat n - card (covered result)" arbitrary: result rule: less_induct)
  case less
  note inv = less.prems
  have sum1: "(\<Sum>i\<leftarrow>result. int (length i) - 1) = int (card (covered result))"
    using a1 inv by (rule sum_lengths)
  have sub: "covered result \<subseteq> {1..n}" using a1 inv by (rule covered_subset)
  show ?case
  proof (cases "int (card (covered result)) < n")
    case True
    define U where "U = [i \<leftarrow> [1..n]. \<not> (\<exists>r \<in> set result. i \<in> set r)]"
    define e where "e = Min (set U)"
    note step = loop_step[OF a1 inv True U_def e_def]
    have pm: "py_min [i \<leftarrow> [1..n]. \<not> (\<exists>r \<in> set result. i \<in> set r)] = Inr e"
      using step(1) py_min_Min[of U] by (simp add: U_def e_def)
    have pos: "0 < period f e"
      using acts_returns[OF a1 step(2)] by (rule period_props(1))
    have "nat n - card (covered (result @ [closed_orbit f e])) < nat n - card (covered result)"
      using step(5) pos True by linarith
    from less.hyps[OF this step(4)]
    obtain final where final: "apply_loop n c1 (result @ [closed_orbit f e]) = Some (Inr final)"
      "apply_loop n c2 (result @ [closed_orbit f e]) = Some (Inr final)"
      "loop_inv f n final" "covered final = {1..n}" by blast
    have "apply_loop n c1 result = apply_loop n c1 (result @ [closed_orbit f e])"
      using True sum1 pm acts_orbit[OF a1 step(2)] by (intro apply_loop_continue) simp_all
    moreover have "apply_loop n c2 result = apply_loop n c2 (result @ [closed_orbit f e])"
      using True sum1 pm acts_orbit[OF a2 step(2)] by (intro apply_loop_continue) simp_all
    ultimately show ?thesis using final by auto
  next
    case False
    have "finite {1..n}" by simp
    moreover have "card {1..n} \<le> card (covered result)" using False by simp
    ultimately have "covered result = {1..n}" using sub by (intro card_seteq) simp_all
    moreover have "apply_loop n c1 result = Some (Inr result)"
      using False sum1 by (intro apply_loop_stop) simp
    moreover have "apply_loop n c2 result = Some (Inr result)"
      using False sum1 by (intro apply_loop_stop) simp
    ultimately show ?thesis using inv by simp
  qed
qed

lemma loop_inv_Nil: "loop_inv f n []"
  by (simp add: loop_inv_def)

subsection \<open>The text of a description\<close>

lemma follow_perm_fun:
  assumes "cycles_ok n d"
  shows "follow d x = Inr (perm_fun d x)"
proof -
  have "d = map (\<lambda>w. w @ w) (map halve d)"
    using assms by (auto simp: cycles_ok_def intro!: map_idI[symmetric])
  then have "follow d x = follow (map (\<lambda>w. w @ w) (map halve d)) x" by simp
  then show ?thesis by (simp only: follow_double perm_fun_def)
qed

lemma set_halve: "c = halve c @ halve c \<Longrightarrow> set (halve c) = set c"
  by (metis set_append sup.idem)

lemma inj_perm_fun:
  assumes "cycles_ok n d"
  shows "inj (perm_fun d)"
  unfolding perm_fun_def using assms by (intro inj_fold_nxt) (auto simp: cycles_ok_def)

lemma perm_fun_in:
  assumes "cycles_ok n d" "x \<in> {1..n}"
  shows "perm_fun d x \<in> {1..n}"
  unfolding perm_fun_def
proof (rule fold_nxt_in)
  show "\<forall>w \<in> set (map halve d). set w \<subseteq> {1..n}"
    using assms(1) set_halve by (fastforce simp: cycles_ok_def)
qed (rule assms(2))

lemma perm_fun_outside:
  assumes "\<forall>c \<in> set d. x \<notin> set c"
  shows "perm_fun d x = x"
  unfolding perm_fun_def
proof (rule fold_nxt_outside)
  show "\<forall>w \<in> set (map halve d). x \<notin> set w"
    using assms by (auto simp: halve_def dest: in_set_takeD)
qed

lemma cycles_ok_acts:
  assumes "cycles_ok n d"
  shows "acts d (perm_fun d) n"
  unfolding acts_def
  using inj_perm_fun[OF assms] follow_perm_fun[OF assms] perm_fun_in[OF assms] by blast

lemma acts_cong:
  assumes "acts d f n" "inj g" "\<forall>x \<in> {1..n}. g x = f x"
  shows "acts d g n"
  using assms by (auto simp: acts_def)

text \<open>The cycles of a finished loop are a canonical decomposition.\<close>

lemma loop_inv_canonical:
  assumes a: "acts d f n" and inv: "loop_inv f n final" and cov: "covered final = {1..n}"
  shows "canonical n (map butlast final)" and "represents (map butlast final) d"
proof -
  have orbit_facts: "butlast r \<noteq> [] \<and> hd (butlast r) = hd r \<and> set (butlast r) = set r
      \<and> (\<forall>i < length (butlast r). follow d (butlast r ! i) = Inr (butlast r ! ((i + 1) mod length (butlast r))))"
    if r: "r \<in> set final" for r
  proof -
    from inv r obtain e where e: "e \<in> {1..n}" "r = closed_orbit f e" by (auto simp: loop_inv_def)
    have ex: "\<exists>k>0. (f ^^ k) e = e" using a e(1) by (rule acts_returns)
    have pos: "0 < period f e" using ex by (rule period_props(1))
    let ?k = "period f e"
    have b: "butlast r = orb f e ?k" using e(2) by simp
    have ne: "butlast r \<noteq> []"
    proof
      assume "butlast r = []"
      then have "length (orb f e ?k) = 0" using b by simp
      then show False using pos by simp
    qed
    have "hd (orb f e ?k) = e" using orb_first[OF pos, of f e] by (metis list.sel(1))
    then have h: "hd (butlast r) = hd r"
      using hd_closed_orbit[OF pos] b e(2) by simp
    have s: "set (butlast r) = set r" using set_closed_orbit[OF pos] b e(2) by simp
    have "follow d (orb f e ?k ! i) = Inr (orb f e ?k ! ((i + 1) mod ?k))" if i: "i < ?k" for i
    proof -
      have in_S: "(f ^^ i) e \<in> {1..n}"
        using a e(1) by (intro funpow_in) (auto simp: acts_def)
      then have "follow d ((f ^^ i) e) = Inr ((f ^^ Suc i) e)" using a by (simp add: acts_def)
      moreover have "(f ^^ Suc i) e = orb f e ?k ! ((i + 1) mod ?k)"
      proof (cases "Suc i < ?k")
        case True
        then show ?thesis by (simp add: nth_orb)
      next
        case False
        then have "Suc i = ?k" using i by simp
        then show ?thesis using period_props(2)[OF ex] pos by (simp add: nth_orb)
      qed
      ultimately show ?thesis using i by (simp add: nth_orb)
    qed
    then show ?thesis using ne h s b by simp
  qed
  have d: "distinct (concat (map butlast final))" using inv by (simp add: loop_inv_def)
  have c: "set (concat (map butlast final)) = {1..n}" using cov by (simp add: covered_def)
  have m: "hd c = Min (set c)" if "c \<in> set (map butlast final)" for c
  proof -
    from that obtain r where r: "r \<in> set final" "c = butlast r" by auto
    have "\<forall>x \<in> set r. hd r \<le> x" using inv r(1) by (simp add: loop_inv_def)
    then have le: "\<forall>x \<in> set c. hd c \<le> x" using orbit_facts[OF r(1)] r(2) by simp
    have "c \<noteq> []" using orbit_facts[OF r(1)] r(2) by simp
    then have in_c: "hd c \<in> set c" by (rule hd_in_set)
    have "Min (set c) = hd c"
    proof (rule Min_eqI)
      show "finite (set c)" by simp
      show "\<And>y. y \<in> set c \<Longrightarrow> hd c \<le> y" using le by simp
      show "hd c \<in> set c" by (rule in_c)
    qed
    then show ?thesis by simp
  qed
  have "map (\<lambda>c. Min (set c)) (map butlast final) = map hd (map butlast final)"
    using m by (intro map_cong) simp_all
  also have "\<dots> = map hd final"
    using orbit_facts by (induction final) simp_all
  finally have eq: "map (\<lambda>c. Min (set c)) (map butlast final) = map hd final" .
  have "sorted_wrt (<) (map hd final)" using inv by (simp add: loop_inv_def)
  then have s: "sorted_wrt (<) (map (\<lambda>c. Min (set c)) (map butlast final))"
    by (simp only: eq)
  have ne: "c \<noteq> []" if "c \<in> set (map butlast final)" for c
    using that orbit_facts by auto
  show "canonical n (map butlast final)"
    unfolding canonical_def using d c m s ne by blast
  have "follow d (c ! i) = Inr (c ! ((i + 1) mod length c))"
    if "c \<in> set (map butlast final)" "i < length c" for c i
  proof -
    from that(1) obtain r where r: "r \<in> set final" "c = butlast r" by auto
    show ?thesis using orbit_facts[OF r(1)] that(2) unfolding r(2) by blast
  qed
  then show "represents (map butlast final) d"
    unfolding represents_def by blast
qed

lemma Perm_apply_canonical:
  assumes ok1: "cycles_ok n d1" and ok2: "cycles_ok n d2"
    and same: "\<forall>x \<in> {1..n}. follow d1 x = follow d2 x"
  shows "\<exists>cs. Perm_apply n d1 = Some (Inr (cycles_text cs)) \<and> Perm_apply n d2 = Some (Inr (cycles_text cs))
           \<and> canonical n cs \<and> represents cs d1"
proof -
  have a1: "acts d1 (perm_fun d1) n" using ok1 by (rule cycles_ok_acts)
  have agree: "\<forall>x \<in> {1..n}. perm_fun d1 x = perm_fun d2 x"
    using same follow_perm_fun[OF ok1] follow_perm_fun[OF ok2] by simp
  have a2: "acts d2 (perm_fun d1) n"
  proof (rule acts_cong)
    show "acts d2 (perm_fun d2) n" using ok2 by (rule cycles_ok_acts)
    show "inj (perm_fun d1)" using ok1 by (rule inj_perm_fun)
    show "\<forall>x \<in> {1..n}. perm_fun d1 x = perm_fun d2 x" by (rule agree)
  qed
  from apply_loop_total[OF a1 a2 loop_inv_Nil]
  obtain final where f: "apply_loop n d1 [] = Some (Inr final)" "apply_loop n d2 [] = Some (Inr final)"
    "loop_inv (perm_fun d1) n final" "covered final = {1..n}" by blast
  have "Perm_apply n d1 = Some (Inr (cycles_text (map butlast final)))"
    "Perm_apply n d2 = Some (Inr (cycles_text (map butlast final)))"
    using f by (simp_all add: Perm_apply_def render_def)
  then show ?thesis using loop_inv_canonical[OF a1 f(3,4)] by blast
qed

subsection \<open>Reading a canonical text back\<close>

lemma digit_cases:
  assumes "0 \<le> x" "x \<le> 9"
  obtains "x = 0" | "x = 1" | "x = 2" | "x = 3" | "x = 4" | "x = 5" | "x = 6" | "x = 7" | "x = 8" | "x = (9::int)"
proof -
  have "x = 0 \<or> x = 1 \<or> x = 2 \<or> x = 3 \<or> x = 4 \<or> x = 5 \<or> x = 6 \<or> x = 7 \<or> x = 8 \<or> x = 9"
    using assms by arith
  then show thesis using that by blast
qed

lemma str_int_digit: "0 \<le> x \<Longrightarrow> x \<le> 9 \<Longrightarrow> str_int x = [digit_char x]"
  by (simp add: str_int_def digit_char_def)

lemma digit_char_props:
  assumes "0 \<le> x" "x \<le> 9"
  shows "is_digit (digit_char x)" and "\<not> is_paren (digit_char x)" and "int_of_char (digit_char x) = Inr x"
  using assms by (auto elim!: digit_cases simp: digit_char_def is_digit_def is_paren_def int_of_char_def)

lemma digit_char_nonzero:
  assumes "1 \<le> x" "x \<le> 9"
  shows "digit_char x \<noteq> CHR ''0''"
proof -
  have "0 \<le> x" using assms by simp
  from this assms(2) show ?thesis
  proof (cases rule: digit_cases)
    case 1
    then show ?thesis using assms by simp
  qed (simp_all add: digit_char_def)
qed

lemma cycle_string: "single_digits c \<Longrightarrow> concat (map str_int c) = map digit_char c"
  by (induction c) (simp_all add: single_digits_def str_int_digit)

lemma mapE_append_Inr:
  "mapE f xs = Inr ys \<Longrightarrow> mapE f xs' = Inr ys' \<Longrightarrow> mapE f (xs @ xs') = Inr (ys @ ys')"
  by (induction xs arbitrary: ys) (auto simp: bindE_def split: sum.splits)

lemma mapE_digits: "single_digits c \<Longrightarrow> mapE int_of_char (map digit_char c) = Inr c"
  by (induction c) (simp_all add: single_digits_def digit_char_props)

lemma mapE_map_Inr:
  "(\<And>x. x \<in> set xs \<Longrightarrow> f (h x) = Inr (g x)) \<Longrightarrow> mapE f (map h xs) = Inr (map g xs)"
  by (induction xs) simp_all

lemma split_cycles_single: "\<forall>ch \<in> set w. ch \<noteq> CHR '')'' \<Longrightarrow> split_cycles w = [w]"
  by (induction w rule: split_cycles.induct) simp_all

lemma split_cycles_prefix:
  "\<forall>ch \<in> set w. ch \<noteq> CHR '')'' \<Longrightarrow> split_cycles (w @ '')('' @ s) = w # split_cycles s"
proof (induction w)
  case Nil
  then show ?case by simp
next
  case (Cons a w)
  obtain d s' where ds: "w @ '')('' @ s = d # s'" by (cases "w @ '')('' @ s") auto
  have "split_cycles (d # s') = w # split_cycles s" using Cons ds by simp
  then show ?case using Cons.prems ds by simp
qed

lemma split_cycles_join:
  assumes "ws \<noteq> []" "\<forall>w \<in> set ws. \<forall>ch \<in> set w. ch \<noteq> CHR '')''"
  shows "split_cycles (join '')('' ws) = ws"
  using assms
proof (induction ws rule: induct_list012)
  case 1
  then show ?case by simp
next
  case (2 x)
  then show ?case by (simp add: split_cycles_single)
next
  case (3 x y ys)
  then have "split_cycles (join '')('' (y # ys)) = y # ys" by simp
  moreover have "split_cycles (x @ '')('' @ join '')('' (y # ys)) = x # split_cycles (join '')('' (y # ys))"
    using 3(4) by (intro split_cycles_prefix) simp
  ultimately show ?case by simp
qed

lemma join_ends:
  assumes "ws \<noteq> []" "\<forall>w \<in> set ws. w \<noteq> []"
  shows "join sep ws \<noteq> []" and "hd (join sep ws) = hd (hd ws)" and "last (join sep ws) = last (last ws)"
  using assms by (induction sep ws rule: join.induct) auto

lemma strip_parens_wrapped:
  assumes "X \<noteq> []" "\<not> is_paren (hd X)" "\<not> is_paren (last X)"
  shows "strip_parens (''('' @ X @ '')'') = X"
proof -
  have p: "is_paren CHR ''(''" "is_paren CHR '')''" by (simp_all add: is_paren_def)
  have "dropWhile is_paren (''('' @ X @ '')'') = dropWhile is_paren (X @ '')'')"
    using p by simp
  also have "\<dots> = X @ '')''"
    using assms by (cases X) simp_all
  finally have 1: "dropWhile is_paren (''('' @ X @ '')'') = X @ '')''" .
  have "rev (X @ '')'') = CHR '')'' # rev X" by simp
  then have "dropWhile is_paren (rev (X @ '')'')) = dropWhile is_paren (rev X)"
    using p by simp
  also have "\<dots> = rev X"
    using assms by (cases "rev X") (simp_all add: hd_rev)
  finally have 2: "dropWhile is_paren (rev (X @ '')'')) = rev X" .
  show ?thesis unfolding strip_parens_def 1 2 by simp
qed

lemma parse_cycles_text:
  assumes ne: "cs \<noteq> []" and c: "\<forall>c \<in> set cs. c \<noteq> [] \<and> single_digits c"
  shows "parse_description (cycles_text cs) = Inr (map (\<lambda>c. c @ c) cs)"
proof -
  let ?ws = "map (\<lambda>c. concat (map str_int c)) cs"
  have ws: "?ws = map (map digit_char) cs"
    using c by (intro map_cong) (simp_all add: cycle_string)
  have nonempty: "\<forall>w \<in> set ?ws. w \<noteq> []" using c by (auto simp: ws)
  have noparen: "\<forall>w \<in> set ?ws. \<forall>ch \<in> set w. \<not> is_paren ch"
    using c by (auto simp: ws single_digits_def digit_char_props)
  have wsne: "?ws \<noteq> []" using ne by simp
  let ?X = "join '')('' ?ws"
  have X: "?X \<noteq> []" using wsne nonempty by (rule join_ends)
  have "hd ?X = hd (hd ?ws)" using wsne nonempty by (rule join_ends)
  moreover have "hd (hd ?ws) \<in> set (hd ?ws)" "hd ?ws \<in> set ?ws"
    using wsne nonempty by (simp_all del: set_map hd_map)
  ultimately have h: "\<not> is_paren (hd ?X)" using noparen by metis
  have "last ?X = last (last ?ws)" using wsne nonempty by (rule join_ends)
  moreover have "last (last ?ws) \<in> set (last ?ws)" "last ?ws \<in> set ?ws"
    using wsne nonempty by (simp_all del: set_map last_map)
  ultimately have l: "\<not> is_paren (last ?X)" using noparen by metis
  have "strip_parens (cycles_text cs) = ?X"
    unfolding cycles_text_def using X h l by (rule strip_parens_wrapped)
  moreover have "split_cycles ?X = ?ws"
    using wsne noparen by (intro split_cycles_join) (auto simp: is_paren_def)
  moreover have "mapE (\<lambda>i. mapE int_of_char (i @ i)) ?ws = Inr (map (\<lambda>c. c @ c) cs)"
  proof -
    have "mapE int_of_char (map digit_char c @ map digit_char c) = Inr (c @ c)" if "c \<in> set cs" for c
      using that c by (intro mapE_append_Inr mapE_digits) simp_all
    then show ?thesis unfolding ws by (intro mapE_map_Inr) simp
  qed
  ultimately show ?thesis by (simp add: parse_description_def)
qed

subsection \<open>Products of permutations\<close>

lemma py_max_Max: "xs \<noteq> [] \<Longrightarrow> py_max xs = Inr (Max (set xs))"
proof (cases xs)
  case Nil
  then show "xs \<noteq> [] \<Longrightarrow> ?thesis" by simp
next
  case (Cons a list)
  then show ?thesis using Max.set_eq_fold[of a list] by simp
qed

lemma map_halve_double [simp]: "map halve (map (\<lambda>c. c @ c) cs) = cs"
  by (induction cs) simp_all

lemma map_halve_double' [simp]: "map (halve \<circ> (\<lambda>c. c @ c)) cs = cs"
  by (induction cs) simp_all

lemma canonical_in_range:
  assumes "canonical n cs" "c \<in> set cs" "x \<in> set c"
  shows "1 \<le> x" "x \<le> n"
proof -
  have "x \<in> set (concat cs)" using assms(2,3) by auto
  moreover have "set (concat cs) = {1..n}" using assms(1) unfolding canonical_def by blast
  ultimately have "x \<in> {1..n}" by blast
  then show "1 \<le> x" "x \<le> n" by simp_all
qed

lemma canonical_single_digits:
  assumes "canonical n cs" "n \<le> 9"
  shows "\<forall>c \<in> set cs. c \<noteq> [] \<and> single_digits c"
  using assms canonical_in_range[OF assms(1)] by (fastforce simp: canonical_def single_digits_def)

lemma canonical_nonempty:
  assumes "canonical n cs" "1 \<le> n"
  shows "cs \<noteq> []"
proof
  assume "cs = []"
  then have "{1..n} = {}" using assms(1) by (simp add: canonical_def)
  then show False using assms(2) by simp
qed

lemma ground_size_canonical:
  assumes can: "canonical n cs" and n: "1 \<le> n"
  shows "ground_size (map (\<lambda>c. c @ c) cs) None = Inr n"
proof -
  have ne: "c \<noteq> []" if "c \<in> set cs" for c using can that by (simp add: canonical_def)
  have "mapE py_max (map (\<lambda>c. c @ c) cs) = Inr (map (\<lambda>c. Max (set c)) cs)"
  proof (rule mapE_map_Inr)
    fix c assume "c \<in> set cs"
    then have "c @ c \<noteq> []" using ne by simp
    then have "py_max (c @ c) = Inr (Max (set (c @ c)))" by (rule py_max_Max)
    then show "py_max (c @ c) = Inr (Max (set c))" by simp
  qed
  moreover have "py_max (map (\<lambda>c. Max (set c)) cs) = Inr n"
  proof -
    have csne: "cs \<noteq> []" using can n by (rule canonical_nonempty)
    then have "py_max (map (\<lambda>c. Max (set c)) cs) = Inr (Max (set (map (\<lambda>c. Max (set c)) cs)))"
      by (intro py_max_Max) simp
    moreover have "Max (set (map (\<lambda>c. Max (set c)) cs)) = n"
    proof (rule Max_eqI)
      show "finite (set (map (\<lambda>c. Max (set c)) cs))" by simp
    next
      fix y assume "y \<in> set (map (\<lambda>c. Max (set c)) cs)"
      then obtain c where c: "c \<in> set cs" "y = Max (set c)" by auto
      then have "y \<in> set c" using ne[OF c(1)] by simp
      then show "y \<le> n" using canonical_in_range[OF can c(1)] by simp
    next
      have "n \<in> set (concat cs)" using can n by (simp add: canonical_def)
      then obtain c where c: "c \<in> set cs" "n \<in> set c" by auto
      have "Max (set c) = n"
        using c canonical_in_range[OF can c(1)] by (intro Max_eqI) simp_all
      then show "n \<in> set (map (\<lambda>c. Max (set c)) cs)" using c(1) by force
    qed
    ultimately show ?thesis by simp
  qed
  ultimately show ?thesis by (simp add: ground_size_def)
qed

lemma fold_nxt_disjoint:
  assumes "distinct (concat ws)" "w \<in> set ws" "x \<in> set w"
  shows "fold nxt ws x = nxt w x"
  using assms
proof (induction ws)
  case Nil
  then show ?case by simp
next
  case (Cons a ws)
  show ?case
  proof (cases "x \<in> set a")
    case True
    then have wa: "w = a" using Cons.prems by auto
    have "nxt a x \<in> set a" using True by (rule nxt_in)
    then have "\<forall>v \<in> set ws. nxt a x \<notin> set v" using Cons.prems(1) by auto
    then have "fold nxt ws (nxt a x) = nxt a x" by (rule fold_nxt_outside)
    then show ?thesis using wa by simp
  next
    case False
    then have "w \<in> set ws" using Cons.prems by auto
    moreover have "distinct (concat ws)" using Cons.prems(1) by simp
    ultimately have "fold nxt ws x = nxt w x" using Cons.prems(3) by (intro Cons.IH)
    then show ?thesis using nxt_notin[OF False] by simp
  qed
qed

lemma fold_nxt_rev:
  assumes "distinct (concat ws)"
  shows "fold nxt (rev ws) x = fold nxt ws x"
proof (cases "\<exists>w \<in> set ws. x \<in> set w")
  case True
  then obtain w where w: "w \<in> set ws" "x \<in> set w" by blast
  have "fold nxt (rev ws) x = nxt w x"
    using assms w by (intro fold_nxt_disjoint) simp_all
  moreover have "fold nxt ws x = nxt w x"
    using assms w by (intro fold_nxt_disjoint)
  ultimately show ?thesis by simp
next
  case False
  then show ?thesis by (simp add: fold_nxt_outside)
qed

lemma cycles_ok_rev [simp]: "cycles_ok n (rev d) = cycles_ok n d"
  by (simp add: cycles_ok_def)

lemma cycles_ok_append [simp]: "cycles_ok n (d @ d') \<longleftrightarrow> cycles_ok n d \<and> cycles_ok n d'"
  by (auto simp: cycles_ok_def)

lemma cycles_ok_mono: "cycles_ok n d \<Longrightarrow> n \<le> m \<Longrightarrow> cycles_ok m d"
  by (fastforce simp: cycles_ok_def)

lemma follow_rev:
  assumes "wf_description n d"
  shows "follow (rev d) x = follow d x"
proof -
  have ok: "cycles_ok n d" "cycles_ok n (rev d)" using assms by (simp_all add: wf_description_def)
  have "perm_fun (rev d) x = perm_fun d x"
    unfolding perm_fun_def rev_map[symmetric]
    using assms by (intro fold_nxt_rev) (simp add: wf_description_def)
  then show ?thesis using follow_perm_fun[OF ok(1)] follow_perm_fun[OF ok(2)] by simp
qed

lemma follow_append: "follow (a @ b) x = bindE (follow a x) (follow b)"
proof (induction a arbitrary: x)
  case Nil
  then show ?case by simp
next
  case (Cons c a)
  show ?case
  proof (cases "x \<in> set c")
    case True
    then show ?thesis by (cases "next_in c x") (simp_all add: Cons.IH)
  next
    case False
    then show ?thesis by (simp add: Cons.IH)
  qed
qed

lemma follow_outside:
  assumes "cycles_ok n d" "x \<notin> {1..n}"
  shows "follow d x = Inr x"
proof -
  have "\<forall>c \<in> set d. x \<notin> set c" using assms by (auto simp: cycles_ok_def)
  then have "perm_fun d x = x" by (rule perm_fun_outside)
  then show ?thesis using follow_perm_fun[OF assms(1)] by simp
qed

lemma canonical_wf:
  assumes "canonical n cs"
  shows "wf_description n (map (\<lambda>c. c @ c) cs)"
proof -
  have d: "distinct (concat cs)" using assms by (simp add: canonical_def)
  have "distinct c" if "c \<in> set cs" for c using d that by (auto simp: distinct_concat_iff)
  then have "cycles_ok n (map (\<lambda>c. c @ c) cs)"
    using canonical_in_range[OF assms] by (auto simp: cycles_ok_def)
  then show ?thesis using d by (simp add: wf_description_def)
qed

lemma canonical_follow:
  assumes can: "canonical n cs" and rep: "represents cs d" and x: "x \<in> {1..n}"
  shows "follow (map (\<lambda>c. c @ c) cs) x = follow d x"
proof -
  have "x \<in> set (concat cs)" using can x by (simp add: canonical_def)
  then obtain c where c: "c \<in> set cs" "x \<in> set c" by auto
  let ?i = "index_of c x"
  have i: "?i < length c" "c ! ?i = x" using c(2) by (simp_all add: index_of_less nth_index_of)
  have "follow (map (\<lambda>c. c @ c) cs) x = Inr (fold nxt cs x)" by (rule follow_double)
  also have "fold nxt cs x = nxt c x"
    using can c by (intro fold_nxt_disjoint) (simp_all add: canonical_def)
  also have "nxt c x = c ! ((?i + 1) mod length c)" using c(2) by (simp add: nxt_def)
  also have "Inr \<dots> = follow d (c ! ?i)"
    using rep c(1) i(1) by (simp add: represents_def)
  finally show ?thesis using i(2) by simp
qed

lemma Perm_init_canonical:
  assumes ok: "cycles_ok n d" and n: "1 \<le> n" "n \<le> 9"
  shows "\<exists>cs. Perm_apply n d = Some (Inr (cycles_text cs)) \<and> canonical n cs \<and> represents cs d
           \<and> Perm_init (cycles_text cs) None
              = Some (Inr \<lparr>description = map (\<lambda>c. c @ c) cs, pmax = n, string = cycles_text cs\<rparr>)"
proof -
  from Perm_apply_canonical[OF ok ok]
  obtain cs where cs: "Perm_apply n d = Some (Inr (cycles_text cs))" "canonical n cs" "represents cs d"
    by auto
  let ?d = "map (\<lambda>c. c @ c) cs"
  have p: "parse_description (cycles_text cs) = Inr ?d"
    using canonical_nonempty[OF cs(2) n(1)] canonical_single_digits[OF cs(2) n(2)]
    by (rule parse_cycles_text)
  have g: "ground_size ?d None = Inr n" using cs(2) n(1) by (rule ground_size_canonical)
  have ok': "cycles_ok n ?d" using canonical_wf[OF cs(2)] by (simp add: wf_description_def)
  have "\<forall>x \<in> {1..n}. follow d x = follow ?d x"
    using canonical_follow[OF cs(2,3)] by simp
  from Perm_apply_canonical[OF ok ok' this]
  obtain cs' where "Perm_apply n d = Some (Inr (cycles_text cs'))"
    "Perm_apply n ?d = Some (Inr (cycles_text cs'))" by auto
  then have "Perm_apply n ?d = Some (Inr (cycles_text cs))" using cs(1) by simp
  then have "Perm_init (cycles_text cs) None
      = Some (Inr \<lparr>description = ?d, pmax = n, string = cycles_text cs\<rparr>)"
    using p g by (simp add: Perm_init_def)
  then show ?thesis using cs by blast
qed

lemma Perm_mul_valid:
  assumes p: "valid_perm p" and q: "valid_perm q"
  shows "\<exists>r. Perm_mul p q = Some (Inr r) \<and> valid_perm r
           \<and> pmax r = max (pmax p) (pmax q)
           \<and> (\<forall>x. follow (description r) x = bindE (follow (description q) x) (follow (description p)))"
proof -
  let ?n = "max (pmax p) (pmax q)"
  let ?D = "rev (description q) @ rev (description p)"
  have wp: "wf_description (pmax p) (description p)" and wq: "wf_description (pmax q) (description q)"
    using p q by (simp_all add: valid_perm_def)
  have okp: "cycles_ok ?n (description p)" and okq: "cycles_ok ?n (description q)"
    using wp wq by (auto simp: wf_description_def intro: cycles_ok_mono)
  have ok: "cycles_ok ?n ?D" using okp okq by simp
  have n: "1 \<le> ?n" "?n \<le> 9" using p q by (simp_all add: valid_perm_def le_max_iff_disj)
  from Perm_init_canonical[OF ok n]
  obtain cs where cs: "Perm_apply ?n ?D = Some (Inr (cycles_text cs))" "canonical ?n cs"
    "represents cs ?D"
    "Perm_init (cycles_text cs) None
       = Some (Inr \<lparr>description = map (\<lambda>c. c @ c) cs, pmax = ?n, string = cycles_text cs\<rparr>)"
    by blast
  let ?r = "\<lparr>description = map (\<lambda>c. c @ c) cs, pmax = ?n, string = cycles_text cs\<rparr>"
  have mul: "Perm_mul p q = Some (Inr ?r)" using cs(1,4) by (simp add: Perm_mul_def)
  have wr: "wf_description ?n (map (\<lambda>c. c @ c) cs)" using cs(2) by (rule canonical_wf)
  have okr: "cycles_ok ?n (map (\<lambda>c. c @ c) cs)" using wr by (simp add: wf_description_def)
  have same: "\<forall>x \<in> {1..?n}. follow ?D x = follow (map (\<lambda>c. c @ c) cs) x"
    using canonical_follow[OF cs(2,3)] by simp
  from Perm_apply_canonical[OF ok okr same]
  have ap: "Perm_apply ?n (map (\<lambda>c. c @ c) cs) = Some (Inr (cycles_text cs))"
    using cs(1) by auto
  have vr: "valid_perm ?r" using n wr ap by (simp add: valid_perm_def)
  have fo: "follow (description ?r) x = bindE (follow (description q) x) (follow (description p))" for x
  proof -
    have D: "follow ?D x = bindE (follow (description q) x) (follow (description p))"
    proof -
      have "follow (rev (description p)) = follow (description p)"
        by (rule ext) (rule follow_rev[OF wp])
      then show ?thesis using follow_rev[OF wq] by (simp add: follow_append)
    qed
    show ?thesis
    proof (cases "x \<in> {1..?n}")
      case True
      then show ?thesis using canonical_follow[OF cs(2,3) True] D by simp
    next
      case False
      then have "follow (map (\<lambda>c. c @ c) cs) x = Inr x" "follow (description q) x = Inr x"
        "follow (description p) x = Inr x"
        using okr okp okq by (simp_all add: follow_outside)
      then show ?thesis by simp
    qed
  qed
  show ?thesis using mul vr fo by (intro exI[of _ ?r]) simp
qed

lemma Perm_mul_image:
  assumes "valid_perm p" and "valid_perm q"
  obtains r where "Perm_mul p q = Some (Inr r)" and "valid_perm r"
    and "\<forall>x. image_of r x = bindE (image_of q x) (image_of p)"
    and "pmax r = max (pmax p) (pmax q)"
proof -
  from Perm_mul_valid[OF assms]
  obtain r where r: "Perm_mul p q = Some (Inr r)" "valid_perm r"
    "pmax r = max (pmax p) (pmax q)"
    "\<forall>x. follow (description r) x = bindE (follow (description q) x) (follow (description p))"
    by blast
  have "image_of p = follow (description p)" by (rule ext) (simp add: image_of_def)
  then have "\<forall>x. image_of r x = bindE (image_of q x) (image_of p)"
    using r(4) by (simp add: image_of_def)
  then show thesis using r(1,2,3) by (intro that[of r]) simp_all
qed

lemma image_of_outside:
  assumes "valid_perm p" and "pmax p < x"
  shows "image_of p x = Inr x"
proof -
  have "cycles_ok (pmax p) (description p)"
    using assms(1) by (simp add: valid_perm_def wf_description_def)
  moreover have "x \<notin> {1..pmax p}" using assms(2) by simp
  ultimately show ?thesis unfolding image_of_def by (rule follow_outside)
qed

subsection \<open>The hash tells canonical texts apart\<close>

lemma dec_snoc [simp]: "dec (xs @ [d]) = 10 * dec xs + d"
  by (simp add: dec_def)

lemma dec_Nil [simp]: "dec [] = 0"
  by (simp add: dec_def)

lemma dec_zero_Cons [simp]: "dec (0 # xs) = dec xs"
  by (simp add: dec_def)

lemma dec_nonneg: "single_digits xs \<Longrightarrow> 0 \<le> dec xs"
  by (induction xs rule: rev_induct) (simp_all add: single_digits_def)

lemma dec_lower:
  assumes "single_digits xs" "xs \<noteq> []" "1 \<le> hd xs"
  shows "10 ^ (length xs - 1) \<le> dec xs"
  using assms
proof (induction xs rule: rev_induct)
  case Nil
  then show ?case by simp
next
  case (snoc d ys)
  show ?case
  proof (cases "ys = []")
    case True
    then show ?thesis using snoc.prems by (simp add: dec_def)
  next
    case False
    then have "10 ^ (length ys - 1) \<le> dec ys"
      using snoc by (simp add: single_digits_def)
    then have "10 * 10 ^ (length ys - 1) \<le> 10 * dec ys" by simp
    moreover have "10 * (10::int) ^ (length ys - 1) = 10 ^ length ys"
      using False by (cases ys) simp_all
    moreover have "0 \<le> d" using snoc.prems by (simp add: single_digits_def)
    ultimately show ?thesis by simp
  qed
qed

lemma dec_upper: "single_digits xs \<Longrightarrow> dec xs < 10 ^ length xs"
proof (induction xs rule: rev_induct)
  case Nil
  then show ?case by simp
next
  case (snoc d ys)
  then have "dec ys + 1 \<le> 10 ^ length ys" "d \<le> 9" by (simp_all add: single_digits_def)
  then have "10 * (dec ys + 1) \<le> 10 * 10 ^ length ys" by simp
  then show ?case using \<open>d \<le> 9\<close> by simp
qed

lemma dec_inj_same_length:
  assumes "length xs = length ys" "single_digits xs" "single_digits ys" "dec xs = dec ys"
  shows "xs = ys"
  using assms
proof (induction xs arbitrary: ys rule: rev_induct)
  case Nil
  then show ?case by simp
next
  case (snoc d xs)
  then obtain e ys' where ys: "ys = ys' @ [e]" by (cases ys rule: rev_cases) auto
  have d: "0 \<le> d" "d \<le> 9" "0 \<le> e" "e \<le> 9"
    using snoc.prems ys by (simp_all add: single_digits_def)
  have "10 * dec xs + d = 10 * dec ys' + e" using snoc.prems ys by simp
  then have "d = e" "dec xs = dec ys'" using d by presburger+
  moreover have "xs = ys'"
    using snoc.prems ys \<open>dec xs = dec ys'\<close> by (intro snoc.IH) (simp_all add: single_digits_def)
  ultimately show ?case using ys by simp
qed

lemma dec_inj:
  assumes "single_digits xs" "single_digits ys" "xs \<noteq> []" "ys \<noteq> []" "1 \<le> hd xs" "1 \<le> hd ys"
    and eq: "dec xs = dec ys"
  shows "xs = ys"
proof -
  have "length xs = length ys"
  proof (rule ccontr)
    assume ne: "length xs \<noteq> length ys"
    have less: False if "length a < length b" "single_digits a" "single_digits b" "b \<noteq> []" "1 \<le> hd b"
      "dec a = dec b" for a b :: "int list"
    proof -
      have "dec a < 10 ^ length a" using that(2) by (rule dec_upper)
      also have "(10::int) ^ length a \<le> 10 ^ (length b - 1)"
        using that(1) by (intro power_increasing) simp_all
      also have "\<dots> \<le> dec b" using that(3,4,5) by (rule dec_lower)
      finally show False using that(6) by simp
    qed
    show False
    proof (cases "length xs < length ys")
      case True
      then show False using less[of xs ys] assms by simp
    next
      case False
      then have "length ys < length xs" using ne by simp
      then show False using less[of ys xs] assms by simp
    qed
  qed
  then show ?thesis using assms by (intro dec_inj_same_length)
qed

lemma int_of_string_digits:
  assumes "single_digits ds" "ds \<noteq> []"
  shows "int_of_string (map digit_char ds) = Inr (dec ds)"
proof -
  have d: "\<forall>c \<in> set (map digit_char ds). is_digit c"
    using assms(1) by (auto simp: single_digits_def digit_char_props)
  have v: "int (index_of ''0123456789'' (digit_char x)) = x" if "0 \<le> x" "x \<le> 9" for x
    using digit_char_props(3)[OF that] digit_char_props(1)[OF that] by (simp add: int_of_char_def)
  have "foldl (\<lambda>acc c. 10 * acc + int (index_of ''0123456789'' c)) a (map digit_char ds)
      = foldl (\<lambda>a d. 10 * a + d) a ds" for a
    using assms(1)
  proof (induction ds arbitrary: a)
    case Nil
    then show ?case by simp
  next
    case (Cons x ds)
    then show ?case using v[of x] by (simp add: single_digits_def)
  qed
  then show ?thesis using d assms(2) by (simp add: int_of_string_def dec_def)
qed

lemma map_join: "map f (join sep ws) = join (map f sep) (map (map f) ws)"
  by (induction sep ws rule: join.induct) simp_all

lemma split_at_zero:
  assumes "u @ (0::int) # r = u' @ 0 # r'" "0 \<notin> set u" "0 \<notin> set u'"
  shows "u = u' \<and> r = r'"
  using assms
proof (induction u arbitrary: u')
  case Nil
  then show ?case by (cases u') auto
next
  case (Cons a u)
  then show ?case by (cases u') auto
qed

lemma list012_cases:
  obtains (nil) "xs = []" | (one) x where "xs = [x]" | (more) x y zs where "xs = x # y # zs"
proof (cases xs)
  case Nil
  then show ?thesis by (rule nil)
next
  case (Cons x ys)
  then show ?thesis by (cases ys) (auto intro: one more)
qed

lemma join_zero_inj:
  assumes "cs \<noteq> []" "cs' \<noteq> []" "\<forall>c \<in> set cs. c \<noteq> [] \<and> 0 \<notin> set c" "\<forall>c \<in> set cs'. c \<noteq> [] \<and> 0 \<notin> set c"
    and "join [0, 0::int] cs = join [0, 0] cs'"
  shows "cs = cs'"
  using assms
proof (induction cs arbitrary: cs' rule: induct_list012)
  case 1
  then show ?case by simp
next
  case (2 c)
  show ?case
  proof (cases cs' rule: list012_cases)
    case nil
    then show ?thesis using 2 by simp
  next
    case (one c')
    then show ?thesis using 2 by simp
  next
    case (more c' c'' rest)
    then have "c = c' @ 0 # 0 # join [0, 0] (c'' # rest)" using 2 by simp
    then have "0 \<in> set c" by simp
    then show ?thesis using 2 by simp
  qed
next
  case (3 c d rest)
  show ?case
  proof (cases cs' rule: list012_cases)
    case nil
    then show ?thesis using 3 by simp
  next
    case (one c')
    then have "c' = c @ 0 # 0 # join [0, 0] (d # rest)" using 3 by simp
    then have "0 \<in> set c'" by simp
    then show ?thesis using 3 one by simp
  next
    case (more c' d' rest')
    have "c @ 0 # (0 # join [0, 0] (d # rest)) = c' @ 0 # (0 # join [0, 0] (d' # rest'))"
      using 3 more by simp
    then have "c = c' \<and> 0 # join [0, 0] (d # rest) = 0 # join [0, 0] (d' # rest')"
      using 3 more by (intro split_at_zero) simp_all
    then have c: "c = c'" and j: "join [0, 0] (d # rest) = join [0, 0] (d' # rest')" by simp_all
    have "d # rest = d' # rest'"
      using 3(5,6) more j by (intro 3(2)) simp_all
    then show ?thesis using c more by simp
  qed
qed

lemma one_to_nine_single: "one_to_nine cs \<Longrightarrow> \<forall>c \<in> set cs. c \<noteq> [] \<and> single_digits c"
  by (fastforce simp: one_to_nine_def single_digits_def)

lemma canonical_one_to_nine:
  assumes "canonical n cs" "1 \<le> n" "n \<le> 9"
  shows "one_to_nine cs"
proof -
  have "cs \<noteq> []" using assms(1,2) by (rule canonical_nonempty)
  moreover have "c \<noteq> []" if "c \<in> set cs" for c
    using assms(1) that unfolding canonical_def by blast
  moreover have "1 \<le> x \<and> x \<le> 9" if "c \<in> set cs" "x \<in> set c" for c x
    using canonical_in_range[OF assms(1) that] assms(3) by simp
  ultimately show ?thesis unfolding one_to_nine_def by blast
qed

lemma single_digits_simps [simp]:
  "single_digits []"
  "single_digits (x # xs) \<longleftrightarrow> 0 \<le> x \<and> x \<le> 9 \<and> single_digits xs"
  "single_digits (xs @ ys) \<longleftrightarrow> single_digits xs \<and> single_digits ys"
  by (auto simp: single_digits_def)

lemma join_single_digits:
  assumes "\<forall>c \<in> set cs. single_digits c"
  shows "single_digits (join [0, 0] cs)"
  using assms by (induction cs rule: induct_list012) simp_all

lemma hash_of_text:
  assumes cs: "one_to_nine cs" and s: "string p = cycles_text cs"
  shows "Perm_hash p = Inr (dec (join [0, 0] cs @ [0]))"
proof -
  let ?g = "\<lambda>c. if is_digit c then c else CHR ''0''"
  have sd: "\<forall>c \<in> set cs. single_digits c" using one_to_nine_single[OF cs] by simp
  have ws: "map (\<lambda>c. concat (map str_int c)) cs = map (map digit_char) cs"
    using sd by (intro map_cong) (simp_all add: cycle_string)
  have g: "map ?g (map digit_char c) = map digit_char c" if "single_digits c" for c
    using that by (induction c) (simp_all add: single_digits_def digit_char_props)
  have gp: "map ?g '')('' = map digit_char [0, 0]" "map ?g ''('' = map digit_char [0]"
    "map ?g '')'' = map digit_char [0]"
    by (simp_all add: is_digit_def digit_char_def)
  have idem: "map (map ?g) (map (map digit_char) cs) = map (map digit_char) cs"
  proof (rule map_idI)
    fix w assume "w \<in> set (map (map digit_char) cs)"
    then obtain c where c: "c \<in> set cs" "w = map digit_char c" by auto
    have "single_digits c" using sd c(1) by blast
    then show "map ?g w = w" unfolding c(2) by (rule g)
  qed
  have "map ?g (join '')('' (map (map digit_char) cs))
      = join (map digit_char [0, 0]) (map (map digit_char) cs)"
    by (simp only: map_join idem gp)
  also have "\<dots> = map digit_char (join [0, 0] cs)" by (simp only: map_join)
  finally have j: "map ?g (join '')('' (map (map digit_char) cs)) = map digit_char (join [0, 0] cs)" .
  have "map ?g (cycles_text cs) = map ?g ''('' @ map ?g (join '')('' (map (map digit_char) cs)) @ map ?g '')''"
    by (simp only: cycles_text_def ws map_append)
  also have "\<dots> = map digit_char (0 # join [0, 0] cs @ [0])"
    by (simp only: j gp) simp
  finally have "map ?g (cycles_text cs) = map digit_char (0 # join [0, 0] cs @ [0])" .
  moreover have "single_digits (0 # join [0, 0] cs @ [0])"
    using join_single_digits[OF sd] by simp
  ultimately have "int_of_string (map ?g (cycles_text cs)) = Inr (dec (0 # join [0, 0] cs @ [0]))"
    by (simp only: int_of_string_digits list.simps(3) not_False_eq_True)
  then show ?thesis by (simp add: Perm_hash_def s)
qed

lemma hash_inj:
  assumes cs: "one_to_nine cs" and cs': "one_to_nine cs'"
    and eq: "dec (join [0, 0] cs @ [0]) = dec (join [0, 0] cs' @ [0])"
  shows "cs = cs'"
proof -
  have props: "single_digits (join [0, 0] cs @ [0]) \<and> join [0, 0] cs \<noteq> [] \<and> 1 \<le> hd (join [0, 0] cs)"
    if "one_to_nine cs" for cs
  proof -
    have ne: "cs \<noteq> []" "\<forall>c \<in> set cs. c \<noteq> []" using that by (auto simp: one_to_nine_def)
    have "single_digits (join [0, 0] cs)"
      using one_to_nine_single[OF that] by (intro join_single_digits) simp
    then have 1: "single_digits (join [0, 0] cs @ [0])" by simp
    have 2: "join [0, 0] cs \<noteq> []" using ne by (rule join_ends)
    have "hd (join [0, 0] cs) = hd (hd cs)" using ne by (rule join_ends)
    moreover have "hd cs \<in> set cs" using ne by simp
    moreover from this have "hd (hd cs) \<in> set (hd cs)" using ne by simp
    moreover have "\<forall>c \<in> set cs. \<forall>x \<in> set c. 1 \<le> x" using that by (simp add: one_to_nine_def)
    ultimately have "1 \<le> hd (join [0, 0] cs)" by metis
    then show ?thesis using 1 2 by simp
  qed
  have "join [0, 0] cs @ [0] = join [0, 0] cs' @ [0]"
    using props[OF cs] props[OF cs'] eq by (intro dec_inj) simp_all
  then have "join [0, 0] cs = join [0, 0] cs'" by simp
  moreover have "\<forall>c \<in> set cs. c \<noteq> [] \<and> 0 \<notin> set c" "\<forall>c \<in> set cs'. c \<noteq> [] \<and> 0 \<notin> set c"
    using cs cs' by (fastforce simp: one_to_nine_def)+
  ultimately show ?thesis using cs cs' by (intro join_zero_inj) (simp_all add: one_to_nine_def)
qed

lemma cycles_text_inj:
  assumes "one_to_nine cs" "one_to_nine cs'" "cycles_text cs = cycles_text cs'"
  shows "cs = cs'"
proof -
  have "parse_description (cycles_text cs) = Inr (map (\<lambda>c. c @ c) cs)"
    using assms(1) one_to_nine_single[OF assms(1)] by (intro parse_cycles_text) (simp_all add: one_to_nine_def)
  moreover have "parse_description (cycles_text cs') = Inr (map (\<lambda>c. c @ c) cs')"
    using assms(2) one_to_nine_single[OF assms(2)] by (intro parse_cycles_text) (simp_all add: one_to_nine_def)
  ultimately have "map halve (map (\<lambda>c. c @ c) cs) = map halve (map (\<lambda>c. c @ c) cs')"
    using assms(3) by simp
  then show ?thesis by (simp only: map_halve_double)
qed

lemma valid_perm_text:
  assumes "valid_perm p"
  obtains cs where "string p = cycles_text cs" "canonical (pmax p) cs"
    "represents cs (description p)" "one_to_nine cs"
proof -
  have ok: "cycles_ok (pmax p) (description p)" and n: "1 \<le> pmax p" "pmax p \<le> 9"
    and ap: "Perm_apply (pmax p) (description p) = Some (Inr (string p))"
    using assms by (simp_all add: valid_perm_def wf_description_def)
  from Perm_init_canonical[OF ok n] ap
  obtain cs where cs: "string p = cycles_text cs" "canonical (pmax p) cs" "represents cs (description p)"
    by auto
  show thesis using cs canonical_one_to_nine[OF cs(2) n] by (rule that)
qed

lemma Perm_eq_valid:
  assumes "valid_perm p" "valid_perm q"
  shows "Perm_eq p q = Inr (string p = string q)"
proof -
  from assms(1) obtain cs where cs: "string p = cycles_text cs" "one_to_nine cs"
    by (rule valid_perm_text)
  from assms(2) obtain cs' where cs': "string q = cycles_text cs'" "one_to_nine cs'"
    by (rule valid_perm_text)
  have hp: "Perm_hash p = Inr (dec (join [0, 0] cs @ [0]))" using cs(2,1) by (rule hash_of_text)
  have hq: "Perm_hash q = Inr (dec (join [0, 0] cs' @ [0]))" using cs'(2,1) by (rule hash_of_text)
  have "dec (join [0, 0] cs @ [0]) = dec (join [0, 0] cs' @ [0]) \<longleftrightarrow> cs = cs'"
    using hash_inj[OF cs(2) cs'(2)] by blast
  moreover have "cs = cs' \<longleftrightarrow> string p = string q"
    using cycles_text_inj[OF cs(2) cs'(2)] cs(1) cs'(1) by auto
  ultimately show ?thesis by (simp add: Perm_eq_def hp hq)
qed

lemma valid_same_text:
  assumes p: "valid_perm p" and q: "valid_perm q" and n: "pmax p = pmax q"
  shows "string p = string q \<longleftrightarrow> (\<forall>x. image_of p x = image_of q x)"
proof
  assume eq: "string p = string q"
  from p obtain cs where cs: "string p = cycles_text cs" "canonical (pmax p) cs"
    "represents cs (description p)" "one_to_nine cs" by (rule valid_perm_text)
  from q obtain cs' where cs': "string q = cycles_text cs'" "canonical (pmax q) cs'"
    "represents cs' (description q)" "one_to_nine cs'" by (rule valid_perm_text)
  have same: "cs = cs'" using cs(4) cs'(4) eq cs(1) cs'(1) by (intro cycles_text_inj) simp_all
  have okp: "cycles_ok (pmax p) (description p)" and okq: "cycles_ok (pmax q) (description q)"
    using p q by (simp_all add: valid_perm_def wf_description_def)
  show "\<forall>x. image_of p x = image_of q x"
  proof
    fix x
    show "image_of p x = image_of q x"
    proof (cases "x \<in> {1..pmax p}")
      case True
      have "follow (map (\<lambda>c. c @ c) cs) x = follow (description p) x"
        using cs(2,3) True by (rule canonical_follow)
      moreover have "x \<in> {1..pmax q}" using True n by simp
      then have "follow (map (\<lambda>c. c @ c) cs') x = follow (description q) x"
        using cs'(2,3) by (intro canonical_follow)
      ultimately show ?thesis using same by (simp add: image_of_def)
    next
      case False
      then show ?thesis using okp okq n by (simp add: image_of_def follow_outside)
    qed
  qed
next
  assume im: "\<forall>x. image_of p x = image_of q x"
  have okp: "cycles_ok (pmax p) (description p)" and okq: "cycles_ok (pmax p) (description q)"
    using p q n by (simp_all add: valid_perm_def wf_description_def)
  have "\<forall>x \<in> {1..pmax p}. follow (description p) x = follow (description q) x"
    using im by (simp add: image_of_def)
  from Perm_apply_canonical[OF okp okq this]
  have "Perm_apply (pmax p) (description p) = Perm_apply (pmax p) (description q)" by auto
  then show "string p = string q" using p q n by (simp add: valid_perm_def)
qed

lemma identity_valid:
  assumes "1 \<le> n" "n \<le> 9"
  obtains e where "Perm_init [] (Some n) = Some (Inr e)" "valid_perm e" "pmax e = n"
    "\<forall>x. image_of e x = Inr x"
proof -
  have pd: "parse_description [] = Inr [[]]"
    by (simp add: parse_description_def strip_parens_def)
  have ok: "cycles_ok n [[]]" by (simp add: cycles_ok_def halve_def)
  from Perm_apply_canonical[OF ok ok]
  obtain cs where cs: "Perm_apply n [[]] = Some (Inr (cycles_text cs))" by auto
  let ?e = "\<lparr>description = [[]], pmax = n, string = cycles_text cs\<rparr>"
  have "Perm_init [] (Some n) = Some (Inr ?e)"
    using pd cs by (simp add: Perm_init_def ground_size_def)
  moreover have "valid_perm ?e"
    using assms ok cs by (simp add: valid_perm_def wf_description_def halve_def)
  moreover have "\<forall>x. image_of ?e x = Inr x" by (simp add: image_of_def)
  ultimately show thesis by (intro that[of ?e]) simp_all
qed

subsection \<open>Every permutation has a power that is the identity\<close>

lemma funpow_period_mult:
  fixes f :: "int \<Rightarrow> int"
  assumes "(f ^^ p) x = x"
  shows "(f ^^ (p * m)) x = x"
proof (induction m)
  case 0
  then show ?case by simp
next
  case (Suc m)
  have "(f ^^ (p * Suc m)) x = (f ^^ (p + p * m)) x" by simp
  also have "\<dots> = (f ^^ p) ((f ^^ (p * m)) x)" by (rule funpow_add_apply)
  finally show ?case using Suc assms by simp
qed

lemma finite_order:
  fixes f :: "int \<Rightarrow> int"
  assumes inj: "inj f" and fin: "finite S" and cl: "\<And>x. x \<in> S \<Longrightarrow> f x \<in> S"
  shows "\<exists>K>0. \<forall>x \<in> S. (f ^^ K) x = x"
proof -
  let ?K = "\<Prod>x \<in> S. period f x"
  have ex: "\<exists>k>0. (f ^^ k) x = x" if "x \<in> S" for x
    using inj fin cl that by (rule returns_to_start)
  have "0 < ?K" using period_props(1)[OF ex] by (intro prod_pos) simp
  moreover have "(f ^^ ?K) x = x" if x: "x \<in> S" for x
  proof -
    have "period f x dvd ?K" using fin x by (rule dvd_prodI)
    then obtain m where "?K = period f x * m" by (auto simp: dvd_def)
    then show ?thesis using funpow_period_mult[OF period_props(2)[OF ex[OF x]], of m] by simp
  qed
  ultimately show ?thesis by blast
qed

lemma funpow_fixed: "f x = x \<Longrightarrow> (f ^^ k) x = x"
  by (induction k) simp_all

lemma valid_perm_fun:
  assumes "valid_perm p"
  obtains f where "\<forall>x. image_of p x = Inr (f x)" and "\<exists>K>0. \<forall>x. (f ^^ K) x = x"
proof -
  let ?n = "pmax p" and ?d = "description p"
  have ok: "cycles_ok ?n ?d" using assms by (simp add: valid_perm_def wf_description_def)
  let ?f = "perm_fun ?d"
  have im: "\<forall>x. image_of p x = Inr (?f x)" using follow_perm_fun[OF ok] by (simp add: image_of_def)
  have "\<exists>K>0. \<forall>x \<in> {1..?n}. (?f ^^ K) x = x"
    using inj_perm_fun[OF ok] perm_fun_in[OF ok] by (intro finite_order) simp_all
  then obtain K where K: "0 < K" "\<forall>x \<in> {1..?n}. (?f ^^ K) x = x" by blast
  have "(?f ^^ K) x = x" for x
  proof (cases "x \<in> {1..?n}")
    case True
    then show ?thesis using K(2) by blast
  next
    case False
    then have "\<forall>c \<in> set ?d. x \<notin> set c" using ok by (auto simp: cycles_ok_def)
    then have "?f x = x" by (rule perm_fun_outside)
    then show ?thesis by (rule funpow_fixed)
  qed
  then show thesis using im K(1) by (intro that[of ?f]) blast+
qed

subsection \<open>The loop of inverse\<close>

lemma power_step:
  assumes self: "valid_perm self" and f: "\<forall>y. image_of self y = Inr (f y)"
    and x: "is_power self f j x"
  shows "\<exists>new. Perm_mul x self = Some (Inr new) \<and> is_power self f (Suc j) new"
proof -
  have vx: "valid_perm x" and nx: "pmax x = pmax self" and ix: "\<forall>y. image_of x y = Inr ((f ^^ j) y)"
    using x by (simp_all add: is_power_def)
  from Perm_mul_image[OF vx self]
  obtain new where new: "Perm_mul x self = Some (Inr new)" "valid_perm new"
    "\<forall>y. image_of new y = bindE (image_of self y) (image_of x)" "pmax new = max (pmax x) (pmax self)"
    by blast
  have "image_of new y = Inr ((f ^^ Suc j) y)" for y
    using new(3) f ix by (simp add: funpow_swap1)
  then show ?thesis using new(1,2,4) nx by (simp add: is_power_def)
qed

lemma power_ne_identity:
  assumes new: "is_power self f j new" and e: "valid_perm e" "pmax e = pmax self"
    "\<forall>y. image_of e y = Inr y"
  shows "Perm_ne new e = Inr (\<not> (\<forall>y. (f ^^ j) y = y))"
proof -
  have vn: "valid_perm new" and nn: "pmax new = pmax e" and im: "\<forall>y. image_of new y = Inr ((f ^^ j) y)"
    using new e(2) by (simp_all add: is_power_def)
  have "string new = string e \<longleftrightarrow> (\<forall>y. (f ^^ j) y = y)"
    using valid_same_text[OF vn e(1) nn] im e(3) by simp
  then show ?thesis using Perm_eq_valid[OF vn e(1)] by (simp add: Perm_ne_def)
qed

lemma inverse_loop_continue:
  assumes "Perm_mul x self = Some (Inr new)" "Perm_init [] (Some (pmax self)) = Some (Inr e)"
    "Perm_ne new e = Inr True"
  shows "inverse_loop self x = inverse_loop self new"
  using assms by (subst inverse_loop.simps) simp

lemma inverse_loop_stop:
  assumes "Perm_mul x self = Some (Inr new)" "Perm_init [] (Some (pmax self)) = Some (Inr e)"
    "Perm_ne new e = Inr False"
  shows "inverse_loop self x = Some (Inr x)"
  using assms by (subst inverse_loop.simps) simp

lemma inverse_loop_returns:
  assumes self: "valid_perm self" and f: "\<forall>y. image_of self y = Inr (f y)"
    and x: "is_power self f j x" and J: "j \<le> J" "\<forall>y. (f ^^ Suc J) y = y"
  shows "\<exists>y i. inverse_loop self x = Some (Inr y) \<and> is_power self f i y \<and> j \<le> i
           \<and> (\<forall>z. (f ^^ Suc i) z = z) \<and> (\<forall>k. j \<le> k \<and> k < i \<longrightarrow> \<not> (\<forall>z. (f ^^ Suc k) z = z))"
  using x J(1)
proof (induction "J - j" arbitrary: j x)
  case 0
  then have jJ: "j = J" by simp
  from power_step[OF self f "0.prems"(1)]
  obtain new where new: "Perm_mul x self = Some (Inr new)" "is_power self f (Suc j) new" by blast
  have n: "1 \<le> pmax self" "pmax self \<le> 9" using self by (simp_all add: valid_perm_def)
  from n obtain e where e: "Perm_init [] (Some (pmax self)) = Some (Inr e)" "valid_perm e"
    "pmax e = pmax self" "\<forall>x. image_of e x = Inr x" by (rule identity_valid)
  have "Perm_ne new e = Inr False"
    using power_ne_identity[OF new(2) e(2,3,4)] J(2) jJ by simp
  then have "inverse_loop self x = Some (Inr x)" using new(1) e(1) by (intro inverse_loop_stop)
  then show ?case using "0.prems"(1) J(2) jJ by (intro exI[of _ x] exI[of _ j]) simp
next
  case (Suc d)
  from power_step[OF self f Suc.prems(1)]
  obtain new where new: "Perm_mul x self = Some (Inr new)" "is_power self f (Suc j) new" by blast
  have n: "1 \<le> pmax self" "pmax self \<le> 9" using self by (simp_all add: valid_perm_def)
  from n obtain e where e: "Perm_init [] (Some (pmax self)) = Some (Inr e)" "valid_perm e"
    "pmax e = pmax self" "\<forall>x. image_of e x = Inr x" by (rule identity_valid)
  note ne = power_ne_identity[OF new(2) e(2,3,4)]
  show ?case
  proof (cases "\<forall>y. (f ^^ Suc j) y = y")
    case True
    then have "Perm_ne new e = Inr False" using ne by simp
    then have "inverse_loop self x = Some (Inr x)" using new(1) e(1) by (intro inverse_loop_stop)
    then show ?thesis using Suc.prems(1) True by (intro exI[of _ x] exI[of _ j]) simp
  next
    case False
    then have "Perm_ne new e = Inr True" using ne by simp
    then have step: "inverse_loop self x = inverse_loop self new"
      using new(1) e(1) by (intro inverse_loop_continue)
    have "d = J - Suc j" "Suc j \<le> J" using Suc.hyps(2) by simp_all
    from Suc.hyps(1)[OF this(1) new(2) this(2)]
    obtain y i where y: "inverse_loop self new = Some (Inr y)" "is_power self f i y" "Suc j \<le> i"
      "\<forall>z. (f ^^ Suc i) z = z" "\<forall>k. Suc j \<le> k \<and> k < i \<longrightarrow> \<not> (\<forall>z. (f ^^ Suc k) z = z)"
      by blast
    have "\<forall>k. j \<le> k \<and> k < i \<longrightarrow> \<not> (\<forall>z. (f ^^ Suc k) z = z)"
    proof (intro allI impI)
      fix k assume k: "j \<le> k \<and> k < i"
      show "\<not> (\<forall>z. (f ^^ Suc k) z = z)"
      proof (cases "k = j")
        case True
        then show ?thesis using False by simp
      next
        case False
        then have "Suc j \<le> k \<and> k < i" using k by simp
        then show ?thesis using y(5) by blast
      qed
    qed
    then show ?thesis using step y(1,2,3,4) by (intro exI[of _ y] exI[of _ i]) simp
  qed
qed

lemma Perm_inverse_returns:
  assumes self: "valid_perm self" and f: "\<forall>y. image_of self y = Inr (f y)"
    and K: "0 < K" "\<forall>x. (f ^^ K) x = x"
  shows "\<exists>y i. Perm_inverse self = Some (Inr y) \<and> is_power self f i y \<and> 1 \<le> i
           \<and> (\<forall>z. (f ^^ Suc i) z = z) \<and> (\<forall>k. 1 \<le> k \<and> k < i \<longrightarrow> \<not> (\<forall>z. (f ^^ Suc k) z = z))"
proof -
  have p1: "is_power self f 1 self" using self f by (simp add: is_power_def)
  have "(f ^^ (K + K)) y = y" for y
    using funpow_add_apply[where f = f and a = K and b = K and x = y] K(2) by simp
  moreover have "Suc (2 * K - 1) = K + K" using K(1) by simp
  ultimately have J: "\<forall>y. (f ^^ Suc (2 * K - 1)) y = y" by simp
  have "1 \<le> 2 * K - 1" using K(1) by simp
  from inverse_loop_returns[OF self f p1 this J]
  show ?thesis by (simp add: Perm_inverse_def)
qed

lemma inverse_returns_inverse:
  assumes self: "valid_perm self"
  shows "\<exists>y r e. Perm_inverse self = Some (Inr y) \<and> valid_perm y
            \<and> Perm_mul self y = Some (Inr r)
            \<and> Perm_init [] (Some (pmax self)) = Some (Inr e)
            \<and> Perm_eq r e = Inr True"
proof -
  from self obtain f where f: "\<forall>x. image_of self x = Inr (f x)"
    and "\<exists>K>0. \<forall>x. (f ^^ K) x = x" by (rule valid_perm_fun)
  then obtain K where K: "0 < K" "\<forall>x. (f ^^ K) x = x" by blast
  from Perm_inverse_returns[OF self f K]
  obtain y i where y: "Perm_inverse self = Some (Inr y)" "is_power self f i y"
    "\<forall>z. (f ^^ Suc i) z = z" by blast
  have vy: "valid_perm y" and ny: "pmax y = pmax self" and iy: "\<forall>z. image_of y z = Inr ((f ^^ i) z)"
    using y(2) by (simp_all add: is_power_def)
  from Perm_mul_image[OF self vy]
  obtain r where r: "Perm_mul self y = Some (Inr r)" "valid_perm r"
    "\<forall>x. image_of r x = bindE (image_of y x) (image_of self)" "pmax r = max (pmax self) (pmax y)"
    by blast
  have n: "1 \<le> pmax self" "pmax self \<le> 9" using self by (simp_all add: valid_perm_def)
  from n obtain e where e: "Perm_init [] (Some (pmax self)) = Some (Inr e)" "valid_perm e"
    "pmax e = pmax self" "\<forall>x. image_of e x = Inr x" by (rule identity_valid)
  have "image_of r x = image_of e x" for x
    using r(3) iy f y(3) e(4) by simp
  moreover have "pmax r = pmax e" using r(4) ny e(3) by simp
  ultimately have "string r = string e" using valid_same_text[OF r(2) e(2)] by simp
  then have "Perm_eq r e = Inr True" using Perm_eq_valid[OF r(2) e(2)] by simp
  then show ?thesis using y(1) vy r(1) e(1) by blast
qed

subsection \<open>The loop of generate_group on valid permutations\<close>

lemma Perm_mul_text:
  assumes p: "valid_perm p" and q: "valid_perm q"
  shows "Perm_mul p q = mul_text p q"
proof -
  let ?n = "max (pmax p) (pmax q)"
  let ?D = "rev (description q) @ rev (description p)"
  have wp: "wf_description (pmax p) (description p)" and wq: "wf_description (pmax q) (description q)"
    using p q by (simp_all add: valid_perm_def)
  have ok: "cycles_ok ?n ?D"
    using wp wq by (auto simp: wf_description_def intro: cycles_ok_mono)
  have n: "1 \<le> ?n" "?n \<le> 9" using p q by (simp_all add: valid_perm_def le_max_iff_disj)
  from Perm_init_canonical[OF ok n]
  obtain cs where cs: "Perm_apply ?n ?D = Some (Inr (cycles_text cs))" "canonical ?n cs"
    "Perm_init (cycles_text cs) None
       = Some (Inr \<lparr>description = map (\<lambda>c. c @ c) cs, pmax = ?n, string = cycles_text cs\<rparr>)"
    by blast
  have "parse_description (cycles_text cs) = Inr (map (\<lambda>c. c @ c) cs)"
    using canonical_nonempty[OF cs(2) n(1)] canonical_single_digits[OF cs(2) n(2)]
    by (rule parse_cycles_text)
  then have "text_perm ?n (cycles_text cs)
      = \<lparr>description = map (\<lambda>c. c @ c) cs, pmax = ?n, string = cycles_text cs\<rparr>"
    by (simp add: text_perm_def)
  then show ?thesis using cs(1,3) by (simp add: Perm_mul_def mul_text_def)
qed

lemma Perm_in_valid:
  assumes "valid_perm prd" and "\<forall>x \<in> set xs. valid_perm x"
  shows "Perm_in prd xs = Inr (string prd \<in> set (map string xs))"
  using assms(2)
proof (induction xs)
  case Nil
  then show ?case by simp
next
  case (Cons x xs)
  then have "Perm_eq x prd = Inr (string x = string prd)"
    using assms(1) by (intro Perm_eq_valid) simp_all
  then show ?case using Cons by auto
qed

lemma products_as_text:
  assumes "\<forall>x \<in> set grp. valid_perm x" and "\<forall>x \<in> set new. valid_perm x"
    and "\<forall>(s, t) \<in> set pairs. valid_perm s \<and> valid_perm t"
  shows "products grp pairs new = products_text (map string grp) pairs new"
  using assms(2,3)
proof (induction pairs arbitrary: new)
  case Nil
  then show ?case by simp
next
  case (Cons st pairs)
  obtain s t where st: "st = (s, t)" by (cases st)
  have v: "valid_perm s" "valid_perm t" using Cons.prems(2) st by simp_all
  from Perm_mul_image[OF v] obtain r where r: "Perm_mul s t = Some (Inr r)" "valid_perm r"
    by blast
  have m: "mul_text s t = Some (Inr r)" using Perm_mul_text[OF v] r(1) by simp
  have in_grp: "Perm_in r grp = Inr (string r \<in> set (map string grp))"
    using r(2) assms(1) by (rule Perm_in_valid)
  have in_new: "Perm_in r new = Inr (string r \<in> set (map string new))"
    using r(2) Cons.prems(1) by (rule Perm_in_valid)
  have rest: "products grp pairs new' = products_text (map string grp) pairs new'"
    if "\<forall>x \<in> set new'. valid_perm x" for new'
    using that Cons.prems(2) by (intro Cons.IH) simp_all
  have "products grp pairs (new @ [r]) = products_text (map string grp) pairs (new @ [r])"
    using Cons.prems(1) r(2) by (intro rest) simp
  then show ?case
    using st r(1) m in_grp in_new rest[OF Cons.prems(1)] by simp
qed

lemma group_loop_pass:
  assumes "sz \<noteq> int (length grp)" and "products grp (List.product grp grp) [] = Some (Inr new)"
  shows "group_loop grp sz = group_loop (grp @ new) (int (length grp))"
  using assms by (subst group_loop.simps) simp

lemma group_loop_done: "group_loop grp (int (length grp)) = Some (Inr grp)"
  by (subst group_loop.simps) simp

lemma products_valid_pass:
  assumes "list_all valid_perm grp"
    and "products_text (map string grp) (List.product grp grp) [] = Some (Inr new)"
  shows "products grp (List.product grp grp) [] = Some (Inr new)"
proof -
  have "products grp (List.product grp grp) [] = products_text (map string grp) (List.product grp grp) []"
    using assms(1) by (intro products_as_text) (auto simp: list_all_iff)
  then show ?thesis using assms(2) by simp
qed

lemma products_text_append:
  "products_text known (ps @ qs) new = bindR (products_text known ps new) (products_text known qs)"
proof (induction ps arbitrary: new)
  case Nil
  then show ?case by simp
next
  case (Cons st ps)
  obtain s t where st: "st = (s, t)" by (cases st)
  show ?case
  proof (cases "mul_text s t")
    case None
    then show ?thesis using st by simp
  next
    case (Some r)
    then show ?thesis using st Cons.IH by (cases r) simp_all
  qed
qed

lemma products_text_rows:
  assumes "\<forall>x \<in> set xs. products_text known (map (Pair x) ys) [] = Some (Inr [])"
  shows "products_text known (List.product xs ys) [] = Some (Inr [])"
  using assms by (induction xs) (simp_all add: products_text_append)

section \<open>Which operations fail, and which return\<close>

subsection \<open>When construction raises\<close>




















subsection \<open>The loop of order\<close>





subsection \<open>Powers\<close>






subsection \<open>The closure ends\<close>








subsection \<open>The operations on valid permutations return\<close>






subsection \<open>The closure of a 4-cycle and a 3-cycle\<close>

lemma S4_valid: "list_all valid_perm (S4_found 24)"
  by code_simp

lemma S4_pass1:
  "products_text (map string (S4_found 2)) (List.product (S4_found 2) (S4_found 2)) []
   = Some (Inr (map (text_perm 4) (take 4 (drop 2 S4_texts))))"
  by code_simp

lemma S4_pass2:
  "products_text (map string (S4_found 6)) (List.product (S4_found 6) (S4_found 6)) []
   = Some (Inr (map (text_perm 4) (take 16 (drop 6 S4_texts))))"
  by code_simp

lemma S4_pass3:
  "products_text (map string (S4_found 22)) (List.product (S4_found 22) (S4_found 22)) []
   = Some (Inr (map (text_perm 4) (take 2 (drop 22 S4_texts))))"
  by code_simp

lemma S4_pass4_rows_a:
  "list_all (\<lambda>x. products_text (map string (S4_found 24)) (map (Pair x) (S4_found 24)) [] = Some (Inr []))
     (S4_found 6)"
  by code_simp

lemma S4_pass4_rows_b:
  "list_all (\<lambda>x. products_text (map string (S4_found 24)) (map (Pair x) (S4_found 24)) [] = Some (Inr []))
     (map (text_perm 4) (take 6 (drop 6 S4_texts)))"
  by code_simp

lemma S4_pass4_rows_c:
  "list_all (\<lambda>x. products_text (map string (S4_found 24)) (map (Pair x) (S4_found 24)) [] = Some (Inr []))
     (map (text_perm 4) (take 6 (drop 12 S4_texts)))"
  by code_simp

lemma S4_pass4_rows_d:
  "list_all (\<lambda>x. products_text (map string (S4_found 24)) (map (Pair x) (S4_found 24)) [] = Some (Inr []))
     (map (text_perm 4) (drop 18 S4_texts))"
  by code_simp

lemma S4_found_add:
  "S4_found (j + m) = S4_found j @ map (text_perm 4) (take m (drop j S4_texts))"
  by (simp add: S4_found_def take_add)

lemma length_S4_texts: "length S4_texts = 24"
  by (simp add: S4_texts_def)

lemma length_S4_found: "k \<le> 24 \<Longrightarrow> length (S4_found k) = k"
  by (simp add: S4_found_def length_S4_texts)

lemma S4_found_valid:
  assumes "k \<le> 24"
  shows "list_all valid_perm (S4_found k)"
proof -
  have "S4_found 24 = S4_found k @ map (text_perm 4) (take (24 - k) (drop k S4_texts))"
    using S4_found_add[of k "24 - k"] assms by simp
  then show ?thesis using S4_valid by simp
qed

lemma S4_pass4:
  "products_text (map string (S4_found 24)) (List.product (S4_found 24) (S4_found 24)) []
   = Some (Inr [])"
proof (rule products_text_rows)
  have "S4_found 24 = S4_found 6 @ map (text_perm 4) (take 6 (drop 6 S4_texts))
      @ map (text_perm 4) (take 6 (drop 12 S4_texts)) @ map (text_perm 4) (drop 18 S4_texts)"
    by (simp add: S4_found_def S4_texts_def)
  then have "list_all (\<lambda>x. products_text (map string (S4_found 24)) (map (Pair x) (S4_found 24)) [] = Some (Inr []))
     (S4_found 24)"
    using S4_pass4_rows_a S4_pass4_rows_b S4_pass4_rows_c S4_pass4_rows_d
    by (simp only: list_all_append simp_thms)
  then show "\<forall>x \<in> set (S4_found 24).
      products_text (map string (S4_found 24)) (map (Pair x) (S4_found 24)) [] = Some (Inr [])"
    by (simp only: list_all_iff)
qed

lemma S4_group_loop: "group_loop (S4_found 2) 0 = Some (Inr (S4_found 24))"
proof -
  have "group_loop (S4_found 2) 0
      = group_loop (S4_found 2 @ map (text_perm 4) (take 4 (drop 2 S4_texts))) (int (length (S4_found 2)))"
    using S4_found_valid[of 2] S4_pass1
    by (intro group_loop_pass products_valid_pass) (simp_all add: length_S4_found)
  also have "\<dots> = group_loop (S4_found 6) 2"
    using S4_found_add[of 2 4] by (simp add: length_S4_found)
  also have "\<dots> = group_loop (S4_found 6 @ map (text_perm 4) (take 16 (drop 6 S4_texts))) (int (length (S4_found 6)))"
    using S4_found_valid[of 6] S4_pass2
    by (intro group_loop_pass products_valid_pass) (simp_all add: length_S4_found)
  also have "\<dots> = group_loop (S4_found 22) 6"
    using S4_found_add[of 6 16] by (simp add: length_S4_found)
  also have "\<dots> = group_loop (S4_found 22 @ map (text_perm 4) (take 2 (drop 22 S4_texts))) (int (length (S4_found 22)))"
    using S4_found_valid[of 22] S4_pass3
    by (intro group_loop_pass products_valid_pass) (simp_all add: length_S4_found)
  also have "\<dots> = group_loop (S4_found 24) 22"
    using S4_found_add[of 22 2] by (simp add: length_S4_found)
  also have "\<dots> = group_loop (S4_found 24 @ []) (int (length (S4_found 24)))"
    using S4_found_valid[of 24] S4_pass4
    by (intro group_loop_pass products_valid_pass) (simp_all add: length_S4_found)
  also have "\<dots> = Some (Inr (S4_found 24))"
    using group_loop_done[of "S4_found 24"] by simp
  finally show ?thesis .
qed

lemma S4_generators:
  "Perm_init ''(1234)'' None = Some (Inr (text_perm 4 ''(1234)''))"
  "Perm_init ''(123)(4)'' None = Some (Inr (text_perm 4 ''(123)(4)''))"
  "S4_found 2 = [text_perm 4 ''(1234)'', text_perm 4 ''(123)(4)'']"
  by code_simp+

lemma S4_sorted:
  "bindE (py_sorted (S4_found 24))
     (\<lambda>g. Inr (length g, length (filter (\<lambda>sigma. sgn_perm sigma = 1) g), map Perm_str g))
   = Inr (24, 12,
       [''e'', ''(14)'', ''(13)'', ''(12)'', ''(24)'', ''(23)'', ''(34)'', ''(143)'', ''(142)'',
        ''(14)(23)'', ''(134)'', ''(132)'', ''(13)(24)'', ''(124)'', ''(123)'', ''(12)(34)'',
        ''(243)'', ''(234)'', ''(1432)'', ''(1423)'', ''(1342)'', ''(1324)'', ''(1243)'', ''(1234)''])"
  by code_simp

subsection \<open>Construction yields the canonical text\<close>

lemma bindR_returns:
  assumes "bindR m f = Some (Inr y)"
  obtains x where "m = Some (Inr x)" and "f x = Some (Inr y)"
  using assms by (cases m) (auto simp: bindR_def split: sum.splits)



subsection \<open>Multiplication is composition\<close>

text \<open>
  C1 (for ground sizes up to 9). For valid permutations \<open>sigma\<close> and \<open>tau\<close> the product returns
  a valid permutation that sends every \<open>x\<close> to \<open>sigma(tau(x))\<close>; its ground size is the larger
  of the two, and each operand leaves the points beyond its own ground size where they are.
  And \<^verbatim>\<open>Perm("(1324)") * Perm("(14)") == Perm("(243)")\<close>.
\<close>

theorem multiply_is_composition:
  assumes "valid_perm sigma" and "valid_perm tau"
  shows "(\<exists>r. Perm_mul sigma tau = Some (Inr r) \<and> valid_perm r
            \<and> (\<forall>x. image_of r x = bindE (image_of tau x) (image_of sigma))
            \<and> pmax r = max (pmax sigma) (pmax tau)
            \<and> (\<forall>x. pmax sigma < x \<longrightarrow> image_of sigma x = Inr x)
            \<and> (\<forall>x. pmax tau < x \<longrightarrow> image_of tau x = Inr x))
         \<and> bindR (Perm_init ''(1324)'' None) (\<lambda>a. bindR (Perm_init ''(14)'' None) (\<lambda>b.
              bindR (Perm_mul a b) (\<lambda>c. bindR (Perm_init ''(243)'' None) (\<lambda>d.
                Some (Perm_eq c d))))) = Some (Inr True)"
proof -
  from Perm_mul_image[OF assms]
  obtain r where r: "Perm_mul sigma tau = Some (Inr r)" "valid_perm r"
    "\<forall>x. image_of r x = bindE (image_of tau x) (image_of sigma)"
    "pmax r = max (pmax sigma) (pmax tau)"
    by blast
  have "bindR (Perm_init ''(1324)'' None) (\<lambda>a. bindR (Perm_init ''(14)'' None) (\<lambda>b.
          bindR (Perm_mul a b) (\<lambda>c. bindR (Perm_init ''(243)'' None) (\<lambda>d.
            Some (Perm_eq c d))))) = Some (Inr True)"
    by code_simp
  then show ?thesis
    using r image_of_outside[OF assms(1)] image_of_outside[OF assms(2)] by blast
qed

text \<open>The theorem at \<^verbatim>\<open>Perm("(1324)")\<close> and \<^verbatim>\<open>Perm("(14)")\<close>, with the product's text.\<close>

theorem multiply_is_composition_witness:
  "Perm_init ''(1324)'' None = Some (Inr \<lparr>description = [[1, 3, 2, 4, 1, 3, 2, 4]], pmax = 4, string = ''(1324)''\<rparr>)
   \<and> Perm_init ''(14)'' None = Some (Inr \<lparr>description = [[1, 4, 1, 4]], pmax = 4, string = ''(14)(2)(3)''\<rparr>)
   \<and> valid_perm \<lparr>description = [[1, 3, 2, 4, 1, 3, 2, 4]], pmax = 4, string = ''(1324)''\<rparr>
   \<and> valid_perm \<lparr>description = [[1, 4, 1, 4]], pmax = 4, string = ''(14)(2)(3)''\<rparr>
   \<and> (\<exists>r. Perm_mul \<lparr>description = [[1, 3, 2, 4, 1, 3, 2, 4]], pmax = 4, string = ''(1324)''\<rparr>
               \<lparr>description = [[1, 4, 1, 4]], pmax = 4, string = ''(14)(2)(3)''\<rparr> = Some (Inr r)
         \<and> string r = ''(1)(243)'' \<and> pmax r = 4 \<and> valid_perm r
         \<and> image_of r 2 = Inr 4 \<and> image_of r 4 = Inr 3 \<and> image_of r 3 = Inr 2 \<and> image_of r 1 = Inr 1)"
proof -
  let ?s = "\<lparr>description = [[1, 3, 2, 4, 1, 3, 2, 4]], pmax = 4, string = ''(1324)''\<rparr>"
  let ?t = "\<lparr>description = [[1, 4, 1, 4]], pmax = 4, string = ''(14)(2)(3)''\<rparr>"
  have s: "Perm_init ''(1324)'' None = Some (Inr ?s)" by code_simp
  have t: "Perm_init ''(14)'' None = Some (Inr ?t)" by code_simp
  have vs: "valid_perm ?s" by code_simp
  have vt: "valid_perm ?t" by code_simp
  have m: "bindR (Perm_mul ?s ?t) (\<lambda>r. Some (Inr (string r))) = Some (Inr ''(1)(243)'')" by code_simp
  have i: "bindE (image_of ?t 2) (image_of ?s) = Inr 4" "bindE (image_of ?t 4) (image_of ?s) = Inr 3"
    "bindE (image_of ?t 3) (image_of ?s) = Inr 2" "bindE (image_of ?t 1) (image_of ?s) = Inr 1"
    by code_simp+
  from multiply_is_composition[OF vs vt]
  obtain r where r: "Perm_mul ?s ?t = Some (Inr r)" "valid_perm r"
    "\<forall>x. image_of r x = bindE (image_of ?t x) (image_of ?s)" "pmax r = max (pmax ?s) (pmax ?t)"
    by blast
  have "string r = ''(1)(243)''" using m r(1) by simp
  moreover have "pmax r = 4" using r(4) by simp
  moreover have "image_of r 2 = Inr 4" "image_of r 4 = Inr 3" "image_of r 3 = Inr 2" "image_of r 1 = Inr 1"
    using r(3) i by simp_all
  ultimately show ?thesis using s t vs vt r(1,2) by blast
qed

text \<open>
  C1 as stated fails at ground size 10: the product of the identity of ten points with
  itself has ground size 9, and its text is not the identity's.
\<close>

theorem multiply_ground_size_ten:
  "bindR (Perm_init [] (Some 10)) (\<lambda>e. bindR (Perm_mul e e) (\<lambda>p.
     Some (Inr (pmax e, string e, pmax p, string p))))
   = Some (Inr (10, ''(1)(2)(3)(4)(5)(6)(7)(8)(9)(10)'', 9, ''(10)(2)(3)(4)(5)(6)(7)(8)''))"
  by code_simp

subsection \<open>The inverse law\<close>

text \<open>
  C6 (for ground sizes up to 9). For a valid permutation \<open>x\<close>, \<open>inverse\<close> returns, the product of
  \<open>x\<close> and its inverse returns, and the product equals the identity \<^verbatim>\<open>Perm("", x.max)\<close>.
\<close>

theorem inverse_law:
  assumes "valid_perm x"
  shows "bindR (Perm_inverse x) (\<lambda>y. bindR (Perm_mul x y) (\<lambda>r.
           bindR (Perm_init [] (Some (pmax x))) (\<lambda>e. Some (Perm_eq r e)))) = Some (Inr True)"
proof -
  from inverse_returns_inverse[OF assms]
  obtain y r e where "Perm_inverse x = Some (Inr y)" "Perm_mul x y = Some (Inr r)"
    "Perm_init [] (Some (pmax x)) = Some (Inr e)" "Perm_eq r e = Inr True"
    by blast
  then show ?thesis by simp
qed

text \<open>The theorem at \<^verbatim>\<open>Perm("(1324)")\<close>, whose inverse is \<^verbatim>\<open>(1423)\<close>.\<close>

theorem inverse_law_witness:
  "valid_perm \<lparr>description = [[1, 3, 2, 4, 1, 3, 2, 4]], pmax = 4, string = ''(1324)''\<rparr>
   \<and> bindR (Perm_inverse \<lparr>description = [[1, 3, 2, 4, 1, 3, 2, 4]], pmax = 4, string = ''(1324)''\<rparr>)
        (\<lambda>y. Some (Inr (string y))) = Some (Inr ''(1423)'')
   \<and> bindR (Perm_inverse \<lparr>description = [[1, 3, 2, 4, 1, 3, 2, 4]], pmax = 4, string = ''(1324)''\<rparr>)
        (\<lambda>y. bindR (Perm_mul \<lparr>description = [[1, 3, 2, 4, 1, 3, 2, 4]], pmax = 4, string = ''(1324)''\<rparr> y)
        (\<lambda>r. bindR (Perm_init [] (Some (pmax \<lparr>description = [[1, 3, 2, 4, 1, 3, 2, 4]], pmax = 4, string = ''(1324)''\<rparr>)))
        (\<lambda>e. Some (Perm_eq r e)))) = Some (Inr True)"
proof -
  let ?x = "\<lparr>description = [[1, 3, 2, 4, 1, 3, 2, 4]], pmax = 4, string = ''(1324)''\<rparr>"
  have v: "valid_perm ?x" by code_simp
  have i: "bindR (Perm_inverse ?x) (\<lambda>y. Some (Inr (string y))) = Some (Inr ''(1423)'')" by code_simp
  show ?thesis using inverse_law[OF v] v i by simp
qed

lemma inverse_loop_ten_facts:
  "Perm_init [] (Some 10) = Some (Inr \<lparr>description = [[]], pmax = 10, string = ''(1)(2)(3)(4)(5)(6)(7)(8)(9)(10)''\<rparr>)"
  "Perm_mul \<lparr>description = [[]], pmax = 10, string = ''(1)(2)(3)(4)(5)(6)(7)(8)(9)(10)''\<rparr>
      \<lparr>description = [[]], pmax = 10, string = ''(1)(2)(3)(4)(5)(6)(7)(8)(9)(10)''\<rparr>
    = Some (Inr \<lparr>description = [[1, 1], [2, 2], [3, 3], [4, 4], [5, 5], [6, 6], [7, 7], [8, 8], [9, 9], [1, 0, 1, 0]],
          pmax = 9, string = ''(10)(2)(3)(4)(5)(6)(7)(8)''\<rparr>)"
  "Perm_mul \<lparr>description = [[1, 1], [2, 2], [3, 3], [4, 4], [5, 5], [6, 6], [7, 7], [8, 8], [9, 9], [1, 0, 1, 0]],
          pmax = 9, string = ''(10)(2)(3)(4)(5)(6)(7)(8)''\<rparr>
      \<lparr>description = [[]], pmax = 10, string = ''(1)(2)(3)(4)(5)(6)(7)(8)(9)(10)''\<rparr>
    = Some (Inr \<lparr>description = [[1, 0, 1, 0], [2, 2], [3, 3], [4, 4], [5, 5], [6, 6], [7, 7], [8, 8], [9, 9]],
          pmax = 9, string = ''(10)(2)(3)(4)(5)(6)(7)(8)''\<rparr>)"
  "Perm_mul \<lparr>description = [[1, 0, 1, 0], [2, 2], [3, 3], [4, 4], [5, 5], [6, 6], [7, 7], [8, 8], [9, 9]],
          pmax = 9, string = ''(10)(2)(3)(4)(5)(6)(7)(8)''\<rparr>
      \<lparr>description = [[]], pmax = 10, string = ''(1)(2)(3)(4)(5)(6)(7)(8)(9)(10)''\<rparr>
    = Some (Inr \<lparr>description = [[1, 0, 1, 0], [2, 2], [3, 3], [4, 4], [5, 5], [6, 6], [7, 7], [8, 8], [9, 9]],
          pmax = 9, string = ''(10)(2)(3)(4)(5)(6)(7)(8)''\<rparr>)"
  "Perm_ne \<lparr>description = d, pmax = n, string = ''(10)(2)(3)(4)(5)(6)(7)(8)''\<rparr>
      \<lparr>description = [[]], pmax = 10, string = ''(1)(2)(3)(4)(5)(6)(7)(8)(9)(10)''\<rparr> = Inr True"
  by code_simp+

text \<open>
  At ground size 10 the loop of \<open>inverse\<close> never ends: the products of the identity of ten
  points with itself have ground size 9 and the text \<^verbatim>\<open>(10)(2)(3)(4)(5)(6)(7)(8)\<close>, which
  never equals the identity's.
\<close>

lemma inverse_loop_ten_diverges:
  "inverse_loop \<lparr>description = [[]], pmax = 10, string = ''(1)(2)(3)(4)(5)(6)(7)(8)(9)(10)''\<rparr>
     \<lparr>description = [[]], pmax = 10, string = ''(1)(2)(3)(4)(5)(6)(7)(8)(9)(10)''\<rparr> = None"
proof (rule ccontr)
  let ?I = "\<lparr>description = [[]], pmax = 10, string = ''(1)(2)(3)(4)(5)(6)(7)(8)(9)(10)''\<rparr>"
  let ?A = "\<lparr>description = [[1, 1], [2, 2], [3, 3], [4, 4], [5, 5], [6, 6], [7, 7], [8, 8], [9, 9], [1, 0, 1, 0]],
          pmax = 9, string = ''(10)(2)(3)(4)(5)(6)(7)(8)''\<rparr>"
  let ?B = "\<lparr>description = [[1, 0, 1, 0], [2, 2], [3, 3], [4, 4], [5, 5], [6, 6], [7, 7], [8, 8], [9, 9]],
          pmax = 9, string = ''(10)(2)(3)(4)(5)(6)(7)(8)''\<rparr>"
  let ?P = "\<lambda>s x (y :: error + Perm). \<not> (s = ?I \<and> (x = ?I \<or> x = ?A \<or> x = ?B))"
  note facts = inverse_loop_ten_facts
  assume "inverse_loop ?I ?I \<noteq> None"
  then obtain y where y: "inverse_loop ?I ?I = Some y" by auto
  have "(case (?I, ?I) of (s, x) \<Rightarrow> ?P s x) y"
  proof (rule inverse_loop.raw_induct[where P = ?P])
    show "(case (?I, ?I) of (s, x) \<Rightarrow> inverse_loop s x) = Some y" using y by simp
  next
    fix loop :: "Perm \<Rightarrow> Perm \<Rightarrow> (error + Perm) option" and self x y
    assume IH: "\<And>s b y. loop s b = Some y \<Longrightarrow> ?P s b y"
      and step: "bindR (Perm_mul x self) (\<lambda>new. bindR (Perm_init [] (Some (pmax self)))
              (\<lambda>ident. bindR (Some (Perm_ne new ident))
                   (\<lambda>b. if b then loop self new else Some (Inr x)))) = Some y"
    show "?P self x y"
    proof
      assume a: "self = ?I \<and> (x = ?I \<or> x = ?A \<or> x = ?B)"
      then consider "x = ?I" | "x = ?A" | "x = ?B" by blast
      then show False
      proof cases
        case 1
        then have "loop ?I ?A = Some y" using step a facts by simp
        then show False using IH by blast
      next
        case 2
        then have "loop ?I ?B = Some y" using step a facts by simp
        then show False using IH by blast
      next
        case 3
        then have "loop ?I ?B = Some y" using step a facts by simp
        then show False using IH by blast
      qed
    qed
  qed
  then show False by simp
qed

text \<open>
  C6 as stated fails at ground size 10: for \<^verbatim>\<open>Perm("", 10)\<close> the computation of the inverse
  does not return, and so neither does the product with the inverse.
\<close>

theorem inverse_law_ten:
  "bindR (Perm_init [] (Some 10)) (\<lambda>x. bindR (Perm_inverse x) (\<lambda>y. bindR (Perm_mul x y) (\<lambda>r.
     bindR (Perm_init [] (Some (pmax x))) (\<lambda>e. Some (Perm_eq r e))))) = None"
  by (simp add: inverse_loop_ten_facts(1) Perm_inverse_def inverse_loop_ten_diverges)

subsection \<open>The sign of the identity\<close>

lemma identity_small:
  "\<forall>n \<in> set [1..9]. bindR (Perm_init [] (Some n))
      (\<lambda>e. Some (Inr (Perm_str e, split_cycles (strip_parens (Perm_str e)), sgn_perm e)))
    = Some (Inr (''e'', [''e''], 1))"
  by code_simp

text \<open>
  C10 (for ground sizes up to 9). The identity \<^verbatim>\<open>Perm("", n)\<close> has the reduced text "e",
  which \<open>sgn_perm\<close> reads as one token of length 1: the sign is \<open>(-1)\<^sup>2\<close>, that is 1.
\<close>

theorem sgn_identity:
  assumes "1 \<le> n" and "n \<le> 9"
  shows "\<exists>e. Perm_init [] (Some n) = Some (Inr e) \<and> Perm_str e = ''e''
           \<and> split_cycles (strip_parens (Perm_str e)) = [''e'']
           \<and> sgn_perm e = (- 1) ^ (length ''e'' + 1) \<and> sgn_perm e = 1"
proof -
  have "n \<in> set [1..9]" using assms by simp
  then have "bindR (Perm_init [] (Some n))
      (\<lambda>e. Some (Inr (Perm_str e, split_cycles (strip_parens (Perm_str e)), sgn_perm e)))
    = Some (Inr (''e'', [''e''], 1))"
    using identity_small by blast
  then obtain e where "Perm_init [] (Some n) = Some (Inr e)"
    "Some (Inr (Perm_str e, split_cycles (strip_parens (Perm_str e)), sgn_perm e)) = Some (Inr (''e'', [''e''], 1))"
    by (auto elim: bindR_returns)
  then have "Perm_init [] (Some n) = Some (Inr e) \<and> Perm_str e = ''e''
      \<and> split_cycles (strip_parens (Perm_str e)) = [''e''] \<and> sgn_perm e = 1"
    by blast
  moreover have "(- 1 :: int) ^ (length ''e'' + 1) = 1" by simp
  ultimately show ?thesis by metis
qed

theorem sgn_identity_witness:
  "(1::int) \<le> 4 \<and> (4::int) \<le> 9
   \<and> (\<exists>e. Perm_init [] (Some 4) = Some (Inr e) \<and> Perm_str e = ''e''
         \<and> split_cycles (strip_parens (Perm_str e)) = [''e'']
         \<and> sgn_perm e = (- 1) ^ (length ''e'' + 1) \<and> sgn_perm e = 1)"
  using sgn_identity[of 4] by simp

text \<open>
  C10 as stated fails at ground size 10: the reduced text of the identity is "(10)", a
  token of length 2, and the sign is -1.
\<close>

theorem sgn_identity_ten:
  "bindR (Perm_init [] (Some 10)) (\<lambda>e. Some (Inr (Perm_str e, sgn_perm e))) = Some (Inr (''(10)'', - 1))"
  by code_simp


subsection \<open>The symmetric group on four points\<close>

text \<open>
  C8. \<^verbatim>\<open>generate_group(Perm("(1234)"), Perm("(123)(4)"))\<close> returns 24 permutations, 12 of
  them with sign 1; their reduced texts, in the returned order, are those of the source's
  sample output.
\<close>

theorem generate_S4:
  "bindR (Perm_init ''(1234)'' None) (\<lambda>a. bindR (Perm_init ''(123)(4)'' None) (\<lambda>b.
     bindR (generate_group [a, b]) (\<lambda>g.
       Some (Inr (length g, length (filter (\<lambda>sigma. sgn_perm sigma = 1) g), map Perm_str g)))))
   = Some (Inr (24, 12,
       [''e'', ''(14)'', ''(13)'', ''(12)'', ''(24)'', ''(23)'', ''(34)'', ''(143)'', ''(142)'',
        ''(14)(23)'', ''(134)'', ''(132)'', ''(13)(24)'', ''(124)'', ''(123)'', ''(12)(34)'',
        ''(243)'', ''(234)'', ''(1432)'', ''(1423)'', ''(1342)'', ''(1324)'', ''(1243)'', ''(1234)'']))"
proof -
  have "generate_group [text_perm 4 ''(1234)'', text_perm 4 ''(123)(4)''] = Some (py_sorted (S4_found 24))"
    using S4_group_loop by (simp add: generate_group_def S4_generators(3))
  then show ?thesis
    using S4_sorted by (cases "py_sorted (S4_found 24)") (simp_all add: S4_generators(1,2))
qed

section \<open>The failures of the library\<close>




subsection \<open>Equality and the hash\<close>

text \<open>
  C3 (as the code has it). \<open>__eq__\<close> returns true exactly when both hashes are the same
  integer, and false exactly when they are two different integers; the hash of a
  permutation is its full text with every non-digit character replaced by the digit 0
  (not removed), read as an integer.
\<close>

theorem Perm_eq_is_hash_equality:
  "(Perm_eq a b = Inr True) = (\<exists>h. Perm_hash a = Inr h \<and> Perm_hash b = Inr h)
   \<and> (Perm_eq a b = Inr False) = (\<exists>h k. Perm_hash a = Inr h \<and> Perm_hash b = Inr k \<and> h \<noteq> k)
   \<and> Perm_hash a = int_of_string (map (\<lambda>c. if is_digit c then c else CHR ''0'') (string a))"
proof -
  have 1: "(Perm_eq a b = Inr True) = (\<exists>h. Perm_hash a = Inr h \<and> Perm_hash b = Inr h)"
    by (cases "Perm_hash a"; cases "Perm_hash b") (auto simp: Perm_eq_def)
  have 2: "(Perm_eq a b = Inr False) = (\<exists>h k. Perm_hash a = Inr h \<and> Perm_hash b = Inr k \<and> h \<noteq> k)"
    by (cases "Perm_hash a"; cases "Perm_hash b") (auto simp: Perm_eq_def)
  show ?thesis using 1 2 by (simp add: Perm_hash_def)
qed

text \<open>
  C3 as the specification words it fails: \<^verbatim>\<open>Perm("(12)(3)")\<close> and \<^verbatim>\<open>Perm("(1)(23)")\<close> have
  the same digits, 123, once the parentheses are removed, and are not equal: their hashes
  are 120030 and 100230.
\<close>

theorem digits_collapsed_not_equality:
  "bindR (Perm_init ''(12)(3)'' None) (\<lambda>a. bindR (Perm_init ''(1)(23)'' None) (\<lambda>b.
     Some (Inr (Perm_eq a b, digits_collapsed a, digits_collapsed b, Perm_hash a, Perm_hash b))))
   = Some (Inr (Inr False, Inr 123, Inr 123, Inr 120030, Inr 100230))"
  by code_simp

subsection \<open>The order of the identity\<close>

text \<open>
  C4 at the identity. The loop of \<open>order\<close> starts at \<open>n = 1\<close> and returns \<open>n + 1\<close>: for the
  identity on one point, and on three points, it returns 2, where the order of the
  identity is 1.
\<close>

theorem order_identity_is_two:
  "bindR (Perm_init [] (Some 1)) Perm_order = Some (Inr 2)
   \<and> bindR (Perm_init ''(1)(2)(3)'' None) Perm_order = Some (Inr 2)"
  by code_simp

subsection \<open>Negative powers\<close>

text \<open>
  C5 at \<^verbatim>\<open>Perm("(12)") ** -1\<close>: the inverse is computed (it is \<^verbatim>\<open>(12)\<close>), and the power
  raises a TypeError.
\<close>

theorem pow_minus_one_raises:
  "bindR (Perm_init ''(12)'' None) (\<lambda>x. Perm_pow x (- 1)) = Some (Inl TypeError)
   \<and> bindR (Perm_init ''(12)'' None) (\<lambda>x. bindR (Perm_inverse x) (\<lambda>y. Some (Inr (string y))))
       = Some (Inr ''(12)'')"
  by code_simp

subsection \<open>The group of the identity\<close>

text \<open>
  C7 at the identity: \<^verbatim>\<open>generate_group(Perm("(1)"))\<close> has one element, and \<open>order\<close> returns 2.
\<close>

theorem generate_group_identity:
  "bindR (Perm_init ''(1)'' None) (\<lambda>x. bindR (generate_group [x]) (\<lambda>g. bindR (Perm_order x) (\<lambda>k.
     Some (Inr (int (length g), k))))) = Some (Inr (1, 2))"
  by code_simp

end
